theory Spec2Isabelle
  imports Main "HOL-Library.Word" "HOL-Library.Sublist"
begin

unbundle bit_operations_syntax

section \<open>JavaScript values\<close>

text \<open>
  A \<open>Uint8Array\<close> or \<open>Buffer\<close> is a list of bytes. A JavaScript string is a sequence of
  16-bit code units; \<open>length\<close>, \<open>slice\<close>, \<open>trim\<close> and the regular expressions of the
  source (none has the \<open>u\<close> flag) all work on code units. \<open>js\<close> writes an ASCII literal.
\<close>

type_synonym u8 = "8 word"
type_synonym u16 = "16 word"
type_synonym u32 = "32 word"
type_synonym jsstring = "u16 list"

definition js :: "string \<Rightarrow> jsstring" where
  "js s = map (\<lambda>c. of_nat (of_char c)) s"

text \<open>
  \<open>String.prototype.trim\<close> and the class \<open>\s\<close> use the same set: the WhiteSpace and
  LineTerminator code points of ECMAScript.
\<close>

definition isWhiteSpace :: "u16 \<Rightarrow> bool" where
  "isWhiteSpace c \<longleftrightarrow>
     c \<in> set [0x09, 0x0A, 0x0B, 0x0C, 0x0D, 0x20, 0xA0, 0x1680,
               0x2028, 0x2029, 0x202F, 0x205F, 0x3000, 0xFEFF]
     \<or> (0x2000 \<le> c \<and> c \<le> 0x200A)"

definition trim :: "jsstring \<Rightarrow> jsstring" where
  "trim s = rev (dropWhile isWhiteSpace (rev (dropWhile isWhiteSpace s)))"

text \<open>\<open>String.prototype.includes\<close>: the argument occurs as a contiguous run.\<close>

fun str_includes :: "jsstring \<Rightarrow> jsstring \<Rightarrow> bool" where
  "str_includes [] m = (m = [])"
| "str_includes (c # cs) m = (prefix m (c # cs) \<or> str_includes cs m)"

section \<open>Cleaning of response text (core/streaming.ts)\<close>

text \<open>
  The regular expressions of \<open>cleanResponseText\<close> are written out as the searches they
  perform. \<open>after_first m s\<close> is what follows the leftmost occurrence of \<open>m\<close> in \<open>s\<close>
  (what a lazy \<open>.*?m\<close> consumes first), \<open>after_last m s\<close> what follows the rightmost one
  (what the greedy \<open>^.*m\<close> with the \<open>s\<close> flag consumes).
\<close>

fun after_first :: "jsstring \<Rightarrow> jsstring \<Rightarrow> jsstring option" where
  "after_first m [] = (if m = [] then Some [] else None)"
| "after_first m (c # cs) =
     (if prefix m (c # cs) then Some (drop (length m) (c # cs)) else after_first m cs)"

fun after_last :: "jsstring \<Rightarrow> jsstring \<Rightarrow> jsstring option" where
  "after_last m [] = (if m = [] then Some [] else None)"
| "after_last m (c # cs) =
     (case after_last m cs of
        Some r \<Rightarrow> Some r
      | None \<Rightarrow> if prefix m (c # cs) then Some (drop (length m) (c # cs)) else None)"

definition BEGIN_SYSTEM :: jsstring where "BEGIN_SYSTEM = js ''<|BEGIN_SYSTEM|>''"
definition END_SYSTEM :: jsstring where "END_SYSTEM = js ''<|END_SYSTEM|>''"
definition BEGIN_USER :: jsstring where "BEGIN_USER = js ''<|BEGIN_USER|>''"
definition END_USER :: jsstring where "END_USER = js ''<|END_USER|>''"

text \<open>
  \<open>/<\|BEGIN_SYSTEM\|>.*?<\|END_SYSTEM\|>.*?<\|BEGIN_USER\|>.*?<\|END_USER\|>/s.test(text)\<close>:
  the four markers occur in this order, without overlap.
\<close>

definition systemPromptRegex_test :: "jsstring \<Rightarrow> bool" where
  "systemPromptRegex_test text =
     (case after_first BEGIN_SYSTEM text of None \<Rightarrow> False
      | Some r1 \<Rightarrow>
     (case after_first END_SYSTEM r1 of None \<Rightarrow> False
      | Some r2 \<Rightarrow>
     (case after_first BEGIN_USER r2 of None \<Rightarrow> False
      | Some r3 \<Rightarrow> after_first END_USER r3 \<noteq> None)))"

text \<open>\<open>text.replace(/^.*<\|END_USER\|>/s, '')\<close>\<close>

definition strip_to_END_USER :: "jsstring \<Rightarrow> jsstring" where
  "strip_to_END_USER text = (case after_last END_USER text of Some r \<Rightarrow> r | None \<Rightarrow> text)"

text \<open>\<open>text.replace(/^\n[a-zA-Z]?/, '')\<close>\<close>

definition isAsciiLetter :: "u16 \<Rightarrow> bool" where
  "isAsciiLetter c \<longleftrightarrow> (0x61 \<le> c \<and> c \<le> 0x7A) \<or> (0x41 \<le> c \<and> c \<le> 0x5A)"

fun strip_newline_letter :: "jsstring \<Rightarrow> jsstring" where
  "strip_newline_letter [] = []"
| "strip_newline_letter (c # cs) =
     (if c = 0x0A
      then (case cs of [] \<Rightarrow> [] | d # ds \<Rightarrow> if isAsciiLetter d then ds else d # ds)
      else c # cs)"

text \<open>
  \<open>text.replace(/\s*\{\}\s*$/, '')\<close>: the match starts at the leftmost position from which
  the rest of the text is white space, \<open>{}\<close>, white space; it runs to the end of the text.
\<close>

definition braces_tail :: "jsstring \<Rightarrow> bool" where
  "braces_tail s =
     (case dropWhile isWhiteSpace s of
        c # d # r \<Rightarrow> c = 0x7B \<and> d = 0x7D \<and> list_all isWhiteSpace r
      | _ \<Rightarrow> False)"

fun strip_trailing_braces :: "jsstring \<Rightarrow> jsstring" where
  "strip_trailing_braces [] = []"
| "strip_trailing_braces (c # cs) =
     (if braces_tail (c # cs) then [] else c # strip_trailing_braces cs)"

definition cleanResponseText :: "jsstring \<Rightarrow> jsstring" where
  "cleanResponseText text =
     (if trim text = js ''{}'' \<or> trim text = [] then []
      else if systemPromptRegex_test text then []
      else
        let text1 = strip_to_END_USER text;
            text2 = trim (strip_newline_letter text1);
            text3 = trim (strip_trailing_braces text2)
        in text3)"

text \<open>A text that \<open>trim\<close> leaves as it is.\<close>

definition trimmed :: "jsstring \<Rightarrow> bool" where
  "trimmed s \<longleftrightarrow> s = [] \<or> (\<not> isWhiteSpace (hd s) \<and> \<not> isWhiteSpace (last s))"


section \<open>Library operations on buffers and strings\<close>

text \<open>
  The operations of Node and of protobufjs that the source calls are not part of the
  repository; they are written out here as the platform documents them.
\<close>

subsection \<open>Errors\<close>

text \<open>
  A thrown value. \<open>Error m\<close> is \<open>new Error(m)\<close> of the source itself and \<open>BadRequestError m\<close>
  the class of core/errors.ts. \<open>LibraryError\<close> stands for what a library call throws: the
  \<open>SyntaxError\<close> of \<open>JSON.parse\<close>, the \<open>RangeError\<close> of the protobufjs reader, a zlib
  error, a \<open>TypeError\<close> of a stream controller, a rejected read. None of those messages
  begins with \<open>API Error:\<close>.
\<close>

datatype js_error = Error jsstring | BadRequestError jsstring | LibraryError

text \<open>\<open>error instanceof Error && error.message.startsWith('API Error:')\<close>\<close>

fun is_API_Error :: "js_error \<Rightarrow> bool" where
  "is_API_Error (Error m) = prefix (js ''API Error:'') m"
| "is_API_Error (BadRequestError m) = prefix (js ''API Error:'') m"
| "is_API_Error LibraryError = False"

subsection \<open>UTF-8\<close>

text \<open>
  \<open>buf.toString('utf-8')\<close>: each ill-formed byte sequence becomes U+FFFD, one per maximal
  prefix of a well-formed sequence, and the byte that broke the sequence is read again.
  Code points above U+FFFF become a surrogate pair. A byte order mark is kept.
\<close>

definition in_range :: "u8 \<Rightarrow> u8 \<Rightarrow> u8 \<Rightarrow> bool" where
  "in_range lo hi b \<longleftrightarrow> lo \<le> b \<and> b \<le> hi"

definition cp2 :: "u8 \<Rightarrow> u8 \<Rightarrow> u16" where
  "cp2 b c1 = push_bit 6 (ucast (b AND 0x1F)) OR ucast (c1 AND 0x3F)"

definition cp3 :: "u8 \<Rightarrow> u8 \<Rightarrow> u8 \<Rightarrow> u16" where
  "cp3 b c1 c2 =
     push_bit 12 (ucast (b AND 0x0F)) OR push_bit 6 (ucast (c1 AND 0x3F)) OR ucast (c2 AND 0x3F)"

definition cp4 :: "u8 \<Rightarrow> u8 \<Rightarrow> u8 \<Rightarrow> u8 \<Rightarrow> u32" where
  "cp4 b c1 c2 c3 =
     push_bit 18 (ucast (b AND 0x07)) OR push_bit 12 (ucast (c1 AND 0x3F))
       OR push_bit 6 (ucast (c2 AND 0x3F)) OR ucast (c3 AND 0x3F)"

definition surrogates :: "u32 \<Rightarrow> jsstring" where
  "surrogates cp =
     [0xD800 + ucast (drop_bit 10 (cp - 0x10000)), 0xDC00 + ucast ((cp - 0x10000) AND 0x3FF)]"

fun utf8_decode :: "u8 list \<Rightarrow> jsstring" where
  "utf8_decode [] = []"
| "utf8_decode (b # bs) =
     (if b < 0x80 then ucast b # utf8_decode bs
      else if in_range 0xC2 0xDF b then
        (case bs of
           [] \<Rightarrow> [0xFFFD]
         | c1 # r1 \<Rightarrow>
             if in_range 0x80 0xBF c1 then cp2 b c1 # utf8_decode r1
             else 0xFFFD # utf8_decode bs)
      else if in_range 0xE0 0xEF b then
        (case bs of
           [] \<Rightarrow> [0xFFFD]
         | c1 # r1 \<Rightarrow>
             if \<not> in_range (if b = 0xE0 then 0xA0 else 0x80) (if b = 0xED then 0x9F else 0xBF) c1
             then 0xFFFD # utf8_decode bs
             else (case r1 of
                     [] \<Rightarrow> [0xFFFD]
                   | c2 # r2 \<Rightarrow>
                       if in_range 0x80 0xBF c2 then cp3 b c1 c2 # utf8_decode r2
                       else 0xFFFD # utf8_decode r1))
      else if in_range 0xF0 0xF4 b then
        (case bs of
           [] \<Rightarrow> [0xFFFD]
         | c1 # r1 \<Rightarrow>
             if \<not> in_range (if b = 0xF0 then 0x90 else 0x80) (if b = 0xF4 then 0x8F else 0xBF) c1
             then 0xFFFD # utf8_decode bs
             else (case r1 of
                     [] \<Rightarrow> [0xFFFD]
                   | c2 # r2 \<Rightarrow>
                       if \<not> in_range 0x80 0xBF c2 then 0xFFFD # utf8_decode r1
                       else (case r2 of
                               [] \<Rightarrow> [0xFFFD]
                             | c3 # r3 \<Rightarrow>
                                 if in_range 0x80 0xBF c3
                                 then surrogates (cp4 b c1 c2 c3) @ utf8_decode r3
                                 else 0xFFFD # utf8_decode r2)))
      else 0xFFFD # utf8_decode bs)"

subsection \<open>Hexadecimal text\<close>

text \<open>\<open>buf.toString('hex')\<close>: two lower-case digits per byte.\<close>

definition hex_digit :: "nat \<Rightarrow> u16" where
  "hex_digit n = (if n < 10 then 0x30 + of_nat n else 0x57 + of_nat n)"

fun toHex :: "u8 list \<Rightarrow> jsstring" where
  "toHex [] = []"
| "toHex (b # bs) = hex_digit (unat b div 16) # hex_digit (unat b mod 16) # toHex bs"

text \<open>The value of a hexadecimal digit, of either case.\<close>

definition hex_value :: "u16 \<Rightarrow> nat option" where
  "hex_value c =
     (if 0x30 \<le> c \<and> c \<le> 0x39 then Some (unat c - 0x30)
      else if 0x61 \<le> c \<and> c \<le> 0x66 then Some (unat c - 0x57)
      else if 0x41 \<le> c \<and> c \<le> 0x46 then Some (unat c - 0x37)
      else None)"

text \<open>
  \<open>Buffer.from(text, 'hex')\<close>: pairs of digits, up to the first pair that is not
  hexadecimal; a last single character is dropped.
\<close>

fun fromHex :: "jsstring \<Rightarrow> u8 list" where
  "fromHex (a # b # r) =
     (case (hex_value a, hex_value b) of
        (Some x, Some y) \<Rightarrow> of_nat (16 * x + y) # fromHex r
      | _ \<Rightarrow> [])"
| "fromHex _ = []"

text \<open>
  \<open>parseInt(text, 16)\<close>: leading white space, a sign, an optional \<open>0x\<close>, then the longest
  run of hexadecimal digits; \<open>None\<close> is \<open>NaN\<close>. The texts parsed here have ten
  characters, so the value is exact.
\<close>

definition digits_value :: "nat list \<Rightarrow> int" where
  "digits_value ds = foldl (\<lambda>a d. 16 * a + int d) 0 ds"

fun hex_run :: "jsstring \<Rightarrow> nat list" where
  "hex_run [] = []"
| "hex_run (c # cs) = (case hex_value c of None \<Rightarrow> [] | Some d \<Rightarrow> d # hex_run cs)"

definition strip_0x :: "jsstring \<Rightarrow> jsstring" where
  "strip_0x s =
     (case s of
        a # b # r \<Rightarrow> if a = 0x30 \<and> (b = 0x78 \<or> b = 0x58) then r else s
      | _ \<Rightarrow> s)"

definition parseInt16 :: "jsstring \<Rightarrow> int option" where
  "parseInt16 text =
     (let s = dropWhile isWhiteSpace text;
          neg = (case s of c # _ \<Rightarrow> c = 0x2D | [] \<Rightarrow> False);
          s1 = (case s of c # r \<Rightarrow> if c = 0x2D \<or> c = 0x2B then r else s | [] \<Rightarrow> s);
          ds = hex_run (strip_0x s1)
      in if ds = [] then None
         else Some (if neg then - digits_value ds else digits_value ds))"

text \<open>
  \<open>text.slice(start, end)\<close> with integer arguments: a negative index counts from the end,
  both are clamped to the text.
\<close>

definition js_slice :: "jsstring \<Rightarrow> int \<Rightarrow> int \<Rightarrow> jsstring" where
  "js_slice s start end =
     (let len = int (length s);
          from = (if start < 0 then max (len + start) 0 else min start len);
          to = (if end < 0 then max (len + end) 0 else min end len)
      in take (nat (to - from)) (drop (nat from) s))"


section \<open>Response messages (lib/protobuf.ts)\<close>

subsection \<open>The protobufjs reader\<close>

text \<open>
  A reader is a buffer and a position that only moves forward; it is modelled by the bytes
  not yet read, so \<open>reader.pos < reader.len\<close> is \<open>r \<noteq> []\<close>. Every operation returns the
  bytes left, or the error it throws.

  \<open>Reader.uint32\<close> reads up to five bytes of seven bits each. A byte beyond the end reads
  as \<open>undefined\<close>: it adds nothing and does not end the number. When none of the five
  bytes ends the number, five more bytes are skipped without being looked at, and the
  read fails when the buffer ends before them.
\<close>

definition uint32 :: "u8 list \<Rightarrow> js_error + (u32 \<times> u8 list)" where
  "uint32 r =
     (case r of [] \<Rightarrow> Inl LibraryError | b0 # r1 \<Rightarrow>
        let v0 = ucast (b0 AND 127) in
        if b0 < 128 then Inr (v0, r1) else
     (case r1 of [] \<Rightarrow> Inl LibraryError | b1 # r2 \<Rightarrow>
        let v1 = v0 OR push_bit 7 (ucast (b1 AND 127)) in
        if b1 < 128 then Inr (v1, r2) else
     (case r2 of [] \<Rightarrow> Inl LibraryError | b2 # r3 \<Rightarrow>
        let v2 = v1 OR push_bit 14 (ucast (b2 AND 127)) in
        if b2 < 128 then Inr (v2, r3) else
     (case r3 of [] \<Rightarrow> Inl LibraryError | b3 # r4 \<Rightarrow>
        let v3 = v2 OR push_bit 21 (ucast (b3 AND 127)) in
        if b3 < 128 then Inr (v3, r4) else
     (case r4 of [] \<Rightarrow> Inl LibraryError | b4 # r5 \<Rightarrow>
        let v4 = v3 OR push_bit 28 (ucast (b4 AND 15)) in
        if b4 < 128 then Inr (v4, r5)
        else if length r5 < 5 then Inl LibraryError
        else Inr (v4, drop 5 r5))))))"

text \<open>
  \<open>BufferReader.string\<close>, the reader made for a Node \<open>Buffer\<close>: the length, then that many
  bytes as UTF-8, cut at the end of the buffer when the length claims more.
\<close>

definition reader_string :: "u8 list \<Rightarrow> js_error + (jsstring \<times> u8 list)" where
  "reader_string r =
     (case uint32 r of
        Inl e \<Rightarrow> Inl e
      | Inr (len, r1) \<Rightarrow> Inr (utf8_decode (take (unat len) r1), drop (unat len) r1))"

text \<open>\<open>Reader.skip(n)\<close> and \<open>Reader.skip()\<close> (over one varint of any length).\<close>

definition skip_bytes :: "nat \<Rightarrow> u8 list \<Rightarrow> js_error + u8 list" where
  "skip_bytes n r = (if length r < n then Inl LibraryError else Inr (drop n r))"

fun skip_varint :: "u8 list \<Rightarrow> js_error + u8 list" where
  "skip_varint [] = Inl LibraryError"
| "skip_varint (b # bs) = (if b AND 128 \<noteq> 0 then skip_varint bs else Inr bs)"

text \<open>
  \<open>Reader.skipType(wireType)\<close>. Wire type 3 opens a group: tags are read and their fields
  skipped until the tag of wire type 4 that closes it. The source does this by calling
  itself for a nested group; \<open>skip_group\<close> counts the groups that are open instead. (The
  call stack of the platform is taken to be deep enough. This is the reader of protobufjs
  7.4.0, the version the package names; later releases refuse groups nested deeper than
  a fixed limit, with an error that parseHexResponse catches like any other.)
\<close>

definition skip_plain :: "u32 \<Rightarrow> u8 list \<Rightarrow> js_error + u8 list" where
  "skip_plain wireType r =
     (if wireType = 0 then skip_varint r
      else if wireType = 1 then skip_bytes 8 r
      else if wireType = 2 then
        (case uint32 r of Inl e \<Rightarrow> Inl e | Inr (len, r1) \<Rightarrow> skip_bytes (unat len) r1)
      else if wireType = 5 then skip_bytes 4 r
      else Inl LibraryError)"

lemma uint32_shorter: "uint32 r = Inr (v, r') \<Longrightarrow> length r' < length r"
  by (auto simp: uint32_def Let_def split: list.splits if_splits)

lemma skip_varint_shorter: "skip_varint r = Inr r' \<Longrightarrow> length r' < length r"
  by (induction r) (auto split: if_splits)

lemma skip_plain_shorter: "skip_plain w r = Inr r' \<Longrightarrow> length r' \<le> length r"
  by (auto simp: skip_plain_def skip_bytes_def split: if_splits sum.splits
      dest!: uint32_shorter skip_varint_shorter)

function skip_group :: "nat \<Rightarrow> u8 list \<Rightarrow> js_error + u8 list" where
  "skip_group depth r =
     (case uint32 r of
        Inl e \<Rightarrow> Inl e
      | Inr (tag, r1) \<Rightarrow>
          if tag AND 7 = 4 then (if depth = 0 then Inr r1 else skip_group (depth - 1) r1)
          else if tag AND 7 = 3 then skip_group (depth + 1) r1
          else (case skip_plain (tag AND 7) r1 of
                  Inl e \<Rightarrow> Inl e
                | Inr r2 \<Rightarrow> skip_group depth r2))"
  by pat_completeness auto
termination
  by (relation "measure (\<lambda>(depth, r). length r)")
     (auto dest!: uint32_shorter skip_plain_shorter)

declare skip_group.simps [simp del]

definition skipType :: "u32 \<Rightarrow> u8 list \<Rightarrow> js_error + u8 list" where
  "skipType wireType r = (if wireType = 3 then skip_group 0 r else skip_plain wireType r)"

lemma skip_group_shorter: "skip_group d r = Inr r' \<Longrightarrow> length r' < length r"
proof (induction d r rule: skip_group.induct)
  case (1 depth r)
  from "1.prems" obtain tag r1 where u: "uint32 r = Inr (tag, r1)"
    by (subst (asm) skip_group.simps) (auto split: sum.splits)
  then have l1: "length r1 < length r" by (rule uint32_shorter)
  show ?case
  proof (cases "tag AND 7 = 4")
    case True
    show ?thesis
    proof (cases "depth = 0")
      case True
      with "1.prems" u \<open>tag AND 7 = 4\<close> l1 show ?thesis
        by (subst (asm) skip_group.simps) simp
    next
      case False
      with "1.prems" u \<open>tag AND 7 = 4\<close> have "skip_group (depth - 1) r1 = Inr r'"
        by (subst (asm) skip_group.simps) simp
      from "1.IH"(1)[OF u refl \<open>tag AND 7 = 4\<close> False this] l1 show ?thesis by simp
    qed
  next
    case n4: False
    show ?thesis
    proof (cases "tag AND 7 = 3")
      case True
      with "1.prems" u n4 have "skip_group (depth + 1) r1 = Inr r'"
        by (subst (asm) skip_group.simps) simp
      from "1.IH"(2)[OF u refl n4 True this] l1 show ?thesis by simp
    next
      case n3: False
      from "1.prems" u n4 n3 obtain r2 where
        p: "skip_plain (tag AND 7) r1 = Inr r2" and g: "skip_group depth r2 = Inr r'"
        by (subst (asm) skip_group.simps) (auto split: sum.splits)
      from "1.IH"(3)[OF u refl n4 n3 p g] skip_plain_shorter[OF p] l1
      show ?thesis by simp
    qed
  qed
qed

lemma skipType_shorter: "skipType w r = Inr r' \<Longrightarrow> length r' \<le> length r"
  by (auto simp: skipType_def dest: skip_group_shorter skip_plain_shorter split: if_splits)

lemma reader_string_shorter: "reader_string r = Inr (s, r') \<Longrightarrow> length r' < length r"
  by (auto simp: reader_string_def split: sum.splits dest!: uint32_shorter)

subsection \<open>decodeResMessage and parseHexResponse\<close>

text \<open>
  \<open>IResMessage\<close> has the one optional field \<open>msg\<close>. Field number 1 is read as a string
  whatever its wire type; every other field is skipped.
\<close>

function decode_fields :: "u8 list \<Rightarrow> jsstring option \<Rightarrow> js_error + jsstring option" where
  "decode_fields r msg =
     (if r = [] then Inr msg
      else case uint32 r of
        Inl e \<Rightarrow> Inl e
      | Inr (tag, r1) \<Rightarrow>
          if drop_bit 3 tag = 1 then
            (case reader_string r1 of
               Inl e \<Rightarrow> Inl e
             | Inr (s, r2) \<Rightarrow> decode_fields r2 (Some s))
          else
            (case skipType (tag AND 7) r1 of
               Inl e \<Rightarrow> Inl e
             | Inr r2 \<Rightarrow> decode_fields r2 msg))"
  by pat_completeness auto
termination
  by (relation "measure (\<lambda>(r, msg). length r)")
     (auto dest!: uint32_shorter reader_string_shorter skipType_shorter)

declare decode_fields.simps [simp del]

definition decodeResMessage :: "u8 list \<Rightarrow> js_error + jsstring option" where
  "decodeResMessage buffer = decode_fields buffer None"

text \<open>
  The body of the \<open>try\<close> in parseHexResponse: a message that decodes and has a non-empty
  \<open>msg\<close> is pushed; the \<open>catch\<close> skips one that fails to decode.
\<close>

definition push_message :: "jsstring list \<Rightarrow> jsstring \<Rightarrow> jsstring list" where
  "push_message results messageHex =
     (case decodeResMessage (fromHex messageHex) of
        Inr (Some msg) \<Rightarrow> if msg \<noteq> [] then results @ [msg] else results
      | Inr None \<Rightarrow> results
      | Inl e \<Rightarrow> results)"

text \<open>
  The loop of parseHexResponse. \<open>offset\<close> is a number; when \<open>parseInt\<close> gives \<open>NaN\<close> the
  comparison with it is false, the slice ends at 0, \<open>offset\<close> becomes \<open>NaN\<close> and the loop
  condition fails after this round. A negative length moves \<open>offset\<close> backwards, and the
  loop need not end on such a text: the result is \<open>None\<close> when it does not.
\<close>

partial_function (option) parseHex_loop ::
  "jsstring \<Rightarrow> int \<Rightarrow> jsstring list \<Rightarrow> jsstring list option" where
  "parseHex_loop hex offset results =
     (if \<not> offset < int (length hex) then Some results
      else if offset + 10 > int (length hex) then Some results
      else
        (case parseInt16 (js_slice hex offset (offset + 10)) of
           None \<Rightarrow> Some (push_message results (js_slice hex (offset + 10) 0))
         | Some dataLength \<Rightarrow>
             if offset + 10 + dataLength * 2 > int (length hex) then Some results
             else parseHex_loop hex (offset + 10 + dataLength * 2)
                    (push_message results
                       (js_slice hex (offset + 10) (offset + 10 + dataLength * 2)))))"

declare parseHex_loop.simps [code]

definition parseHexResponse :: "jsstring \<Rightarrow> jsstring list option" where
  "parseHexResponse hex = parseHex_loop hex 0 []"


subsection \<open>Framing, read from the bytes\<close>

text \<open>The number that bytes spell, most significant byte first.\<close>

definition be_value :: "u8 list \<Rightarrow> nat" where
  "be_value bs = foldl (\<lambda>a b. 256 * a + unat b) 0 bs"

text \<open>The five-byte length prefix of a frame, and a message with its prefix.\<close>

definition be5 :: "nat \<Rightarrow> u8 list" where
  "be5 n = [of_nat (n div 2 ^ 32), of_nat (n div 2 ^ 24), of_nat (n div 2 ^ 16),
            of_nat (n div 2 ^ 8), of_nat n]"

definition frame :: "u8 list \<Rightarrow> u8 list" where
  "frame m = be5 (length m) @ m"

text \<open>
  The scan of the specification (4.6), on the bytes: read a five-byte big-endian length;
  stop when fewer than five bytes remain or the length exceeds what remains; decode that
  many bytes as one message; on a failed decode skip the message; collect every decoded
  \<open>msg\<close> in order; go on after the message.
\<close>

function parseFramedMessages :: "u8 list \<Rightarrow> jsstring list" where
  "parseFramedMessages bs =
     (if length bs < 5 then []
      else let n = be_value (take 5 bs) in
        if 5 + n > length bs then []
        else (case decodeResMessage (take n (drop 5 bs)) of
                Inr (Some msg) \<Rightarrow> [msg]
              | Inr None \<Rightarrow> []
              | Inl e \<Rightarrow> [])
             @ parseFramedMessages (drop (5 + n) bs))"
  by pat_completeness auto
termination
  by (relation "measure length") auto

declare parseFramedMessages.simps [simp del]

text \<open>What one message adds to the results of parseHexResponse.\<close>

definition collect :: "u8 list \<Rightarrow> jsstring list" where
  "collect m = (case decodeResMessage m of
                  Inr (Some msg) \<Rightarrow> if msg \<noteq> [] then [msg] else []
                | Inr None \<Rightarrow> []
                | Inl e \<Rightarrow> [])"


section \<open>JSON.parse\<close>

text \<open>
  \<open>JSON.parse\<close> as ECMA-404 defines the texts it accepts. A number keeps its exact decimal
  value, mantissa and power of ten; an object keeps its members in the order written.
\<close>

datatype json =
    JNull
  | JBool bool
  | JNumber int int
  | JString jsstring
  | JArray "json list"
  | JObject "(jsstring \<times> json) list"

datatype token =
    TLBrace | TRBrace | TLBracket | TRBracket | TColon | TComma
  | TString jsstring | TNumber int int | TTrue | TFalse | TNull

subsection \<open>Tokens\<close>

definition isDigit :: "u16 \<Rightarrow> bool" where
  "isDigit c \<longleftrightarrow> 0x30 \<le> c \<and> c \<le> 0x39"

definition isJsonSpace :: "u16 \<Rightarrow> bool" where
  "isJsonSpace c \<longleftrightarrow> c = 0x20 \<or> c = 0x09 \<or> c = 0x0A \<or> c = 0x0D"

text \<open>The character after a backslash, other than \<open>u\<close>.\<close>

definition simple_escape :: "u16 \<Rightarrow> u16 option" where
  "simple_escape e =
     (if e = 0x22 then Some 0x22
      else if e = 0x5C then Some 0x5C
      else if e = 0x2F then Some 0x2F
      else if e = 0x62 then Some 0x08
      else if e = 0x66 then Some 0x0C
      else if e = 0x6E then Some 0x0A
      else if e = 0x72 then Some 0x0D
      else if e = 0x74 then Some 0x09
      else None)"

definition hex4 :: "u16 \<Rightarrow> u16 \<Rightarrow> u16 \<Rightarrow> u16 \<Rightarrow> u16 option" where
  "hex4 a b c d =
     (case (hex_value a, hex_value b, hex_value c, hex_value d) of
        (Some w, Some x, Some y, Some z) \<Rightarrow> Some (of_nat (((w * 16 + x) * 16 + y) * 16 + z))
      | _ \<Rightarrow> None)"

text \<open>The rest of a string after its opening quote: the text, and what follows the closing quote.\<close>

fun lex_string :: "jsstring \<Rightarrow> jsstring \<Rightarrow> (jsstring \<times> jsstring) option" where
  "lex_string acc [] = None"
| "lex_string acc (c # cs) =
     (if c = 0x22 then Some (rev acc, cs)
      else if c = 0x5C then
        (case cs of
           [] \<Rightarrow> None
         | e # r \<Rightarrow>
             if e = 0x75 then
               (case r of
                  h1 # h2 # h3 # h4 # r' \<Rightarrow>
                    (case hex4 h1 h2 h3 h4 of
                       None \<Rightarrow> None
                     | Some u \<Rightarrow> lex_string (u # acc) r')
                | _ \<Rightarrow> None)
             else
               (case simple_escape e of
                  None \<Rightarrow> None
                | Some x \<Rightarrow> lex_string (x # acc) r))
      else if c < 0x20 then None
      else lex_string (c # acc) cs)"

definition digits_int :: "jsstring \<Rightarrow> int" where
  "digits_int ds = foldl (\<lambda>a c. 10 * a + (uint c - 0x30)) 0 ds"

text \<open>
  A number: \<open>-?(0|[1-9][0-9]*)(\.[0-9]+)?([eE][+-]?[0-9]+)?\<close>, the longest such text, read
  in its three parts. The result is the mantissa, the power of ten, and what follows.
\<close>

definition lex_int :: "jsstring \<Rightarrow> (jsstring \<times> jsstring) option" where
  "lex_int s =
     (case s of
        [] \<Rightarrow> None
      | c # r \<Rightarrow>
          if c = 0x30 then Some ([c], r)
          else if isDigit c then Some (takeWhile isDigit s, dropWhile isDigit s)
          else None)"

definition lex_frac :: "jsstring \<Rightarrow> (jsstring \<times> jsstring) option" where
  "lex_frac s =
     (case s of
        [] \<Rightarrow> Some ([], [])
      | c # r \<Rightarrow>
          if c = 0x2E then
            (if takeWhile isDigit r = [] then None
             else Some (takeWhile isDigit r, dropWhile isDigit r))
          else Some ([], s))"

definition lex_exp_sign :: "jsstring \<Rightarrow> bool \<times> jsstring" where
  "lex_exp_sign s =
     (case s of
        [] \<Rightarrow> (False, [])
      | d # r \<Rightarrow> if d = 0x2D then (True, r) else if d = 0x2B then (False, r) else (False, s))"

definition lex_exp :: "jsstring \<Rightarrow> (int \<times> jsstring) option" where
  "lex_exp s =
     (case s of
        [] \<Rightarrow> Some (0, [])
      | c # r \<Rightarrow>
          if c = 0x65 \<or> c = 0x45 then
            (case lex_exp_sign r of
               (neg, r1) \<Rightarrow>
                 if takeWhile isDigit r1 = [] then None
                 else Some ((if neg then - digits_int (takeWhile isDigit r1)
                             else digits_int (takeWhile isDigit r1)),
                            dropWhile isDigit r1))
          else Some (0, s))"

definition lex_number :: "jsstring \<Rightarrow> ((int \<times> int) \<times> jsstring) option" where
  "lex_number s =
     (let neg = (case s of c # _ \<Rightarrow> c = 0x2D | [] \<Rightarrow> False);
          s1 = (if neg then tl s else s)
      in case lex_int s1 of
           None \<Rightarrow> None
         | Some (ip, s2) \<Rightarrow>
             (case lex_frac s2 of
                None \<Rightarrow> None
              | Some (fp, s3) \<Rightarrow>
                  (case lex_exp s3 of
                     None \<Rightarrow> None
                   | Some (e, s4) \<Rightarrow>
                       Some ((if neg then - digits_int (ip @ fp)
                              else digits_int (ip @ fp),
                              e - int (length fp)), s4))))"

lemma lex_string_shorter: "lex_string acc s = Some (t, r) \<Longrightarrow> length r < length s"
proof (induction acc s rule: lex_string.induct)
  case (1 acc)
  then show ?case by simp
next
  case (2 acc c cs)
  then show ?case
    by (auto split: if_splits list.splits option.splits) fastforce+
qed

lemma length_dropWhile_less: "takeWhile P xs \<noteq> [] \<Longrightarrow> length (dropWhile P xs) < length xs"
  by (cases xs) (auto simp: length_dropWhile_le less_Suc_eq_le split: if_splits)

lemma lex_int_shorter: "lex_int s = Some (d, r) \<Longrightarrow> length r < length s"
  by (cases s) (auto simp: lex_int_def length_dropWhile_le less_Suc_eq_le split: if_splits)

lemma lex_frac_shorter: "lex_frac s = Some (d, r) \<Longrightarrow> length r \<le> length s"
  by (cases s) (auto simp: lex_frac_def length_dropWhile_le le_SucI split: if_splits)

lemma lex_exp_sign_shorter: "lex_exp_sign s = (n, r) \<Longrightarrow> length r \<le> length s"
  by (cases s) (auto simp: lex_exp_sign_def split: if_splits)

lemma lex_exp_shorter: "lex_exp s = Some (e, r) \<Longrightarrow> length r \<le> length s"
proof (cases s)
  case Nil
  assume "lex_exp s = Some (e, r)"
  with Nil show ?thesis by (simp add: lex_exp_def)
next
  case (Cons c cs)
  assume a: "lex_exp s = Some (e, r)"
  show ?thesis
  proof (cases "c = 0x65 \<or> c = 0x45")
    case False
    with a Cons show ?thesis by (auto simp: lex_exp_def)
  next
    case True
    obtain n r1 where sg: "lex_exp_sign cs = (n, r1)" by (cases "lex_exp_sign cs")
    from a Cons True sg have "r = dropWhile isDigit r1"
      by (auto simp: lex_exp_def split: if_splits)
    moreover have "length (dropWhile isDigit r1) \<le> length r1" by (rule length_dropWhile_le)
    moreover from sg have "length r1 \<le> length cs" by (rule lex_exp_sign_shorter)
    ultimately show ?thesis using Cons by simp
  qed
qed

lemma lex_number_shorter: "lex_number s = Some (v, r) \<Longrightarrow> length r < length s"
proof -
  assume a: "lex_number s = Some (v, r)"
  define s1 where "s1 = (if (case s of c # _ \<Rightarrow> c = 0x2D | [] \<Rightarrow> False) then tl s else s)"
  have l1: "length s1 \<le> length s" by (simp add: s1_def)
  from a obtain ip s2 fp s3 e where
    i: "lex_int s1 = Some (ip, s2)" and f: "lex_frac s2 = Some (fp, s3)"
    and x: "lex_exp s3 = Some (e, r)"
    unfolding lex_number_def Let_def s1_def[symmetric]
    by (auto split: option.splits)
  from lex_int_shorter[OF i] lex_frac_shorter[OF f] lex_exp_shorter[OF x] l1
  show ?thesis by simp
qed

function tokenize :: "jsstring \<Rightarrow> token list option" where
  "tokenize [] = Some []"
| "tokenize (c # cs) =
     (if isJsonSpace c then tokenize cs
      else if c = 0x7B then map_option ((#) TLBrace) (tokenize cs)
      else if c = 0x7D then map_option ((#) TRBrace) (tokenize cs)
      else if c = 0x5B then map_option ((#) TLBracket) (tokenize cs)
      else if c = 0x5D then map_option ((#) TRBracket) (tokenize cs)
      else if c = 0x3A then map_option ((#) TColon) (tokenize cs)
      else if c = 0x2C then map_option ((#) TComma) (tokenize cs)
      else if c = 0x22 then
        (case lex_string [] cs of
           None \<Rightarrow> None
         | Some (t, r) \<Rightarrow> map_option ((#) (TString t)) (tokenize r))
      else if c = 0x2D \<or> isDigit c then
        (case lex_number (c # cs) of
           None \<Rightarrow> None
         | Some ((m, e), r) \<Rightarrow> map_option ((#) (TNumber m e)) (tokenize r))
      else if prefix (js ''true'') (c # cs) then map_option ((#) TTrue) (tokenize (drop 3 cs))
      else if prefix (js ''false'') (c # cs) then map_option ((#) TFalse) (tokenize (drop 4 cs))
      else if prefix (js ''null'') (c # cs) then map_option ((#) TNull) (tokenize (drop 3 cs))
      else None)"
  by pat_completeness auto
termination
  by (relation "measure length")
     (auto dest!: lex_string_shorter lex_number_shorter)

declare tokenize.simps [simp del]

subsection \<open>Values\<close>

text \<open>
  The grammar over the tokens, as a stack machine: a frame is an array or an object that
  is still open, with what it holds so far (latest first); an object frame also has the
  key that waits for its value.
\<close>

datatype frame = FArray "json list" | FObject "(jsstring \<times> json) list" "jsstring option"

datatype pstate =
    PValue                \<comment> \<open>a value must come\<close>
  | PValueOrEnd           \<comment> \<open>after \<open>[\<close>: a value or \<open>]\<close>\<close>
  | PKeyOrEnd             \<comment> \<open>after \<open>{\<close>: a key or \<open>}\<close>\<close>
  | PKey                  \<comment> \<open>after a comma in an object: a key\<close>
  | PColon                \<comment> \<open>after a key\<close>
  | PAfter                \<comment> \<open>after a value inside an array or object\<close>
  | PDone json            \<comment> \<open>the whole value has been read\<close>

text \<open>A finished value goes into the innermost open frame, or is the result.\<close>

fun complete :: "json \<Rightarrow> frame list \<Rightarrow> (pstate \<times> frame list) option" where
  "complete v [] = Some (PDone v, [])"
| "complete v (FArray es # st) = Some (PAfter, FArray (v # es) # st)"
| "complete v (FObject ps (Some k) # st) = Some (PAfter, FObject ((k, v) # ps) None # st)"
| "complete v (FObject ps None # st) = None"

fun close_frame :: "token \<Rightarrow> frame list \<Rightarrow> (pstate \<times> frame list) option" where
  "close_frame TRBracket (FArray es # st) = complete (JArray (rev es)) st"
| "close_frame TRBrace (FObject ps None # st) = complete (JObject (rev ps)) st"
| "close_frame _ _ = None"

fun start_value :: "token \<Rightarrow> frame list \<Rightarrow> (pstate \<times> frame list) option" where
  "start_value TLBrace st = Some (PKeyOrEnd, FObject [] None # st)"
| "start_value TLBracket st = Some (PValueOrEnd, FArray [] # st)"
| "start_value (TString s) st = complete (JString s) st"
| "start_value (TNumber m e) st = complete (JNumber m e) st"
| "start_value TTrue st = complete (JBool True) st"
| "start_value TFalse st = complete (JBool False) st"
| "start_value TNull st = complete JNull st"
| "start_value _ st = None"

fun take_key :: "token \<Rightarrow> frame list \<Rightarrow> (pstate \<times> frame list) option" where
  "take_key (TString k) (FObject ps None # st) = Some (PColon, FObject ps (Some k) # st)"
| "take_key _ _ = None"

fun parse_step :: "pstate \<Rightarrow> frame list \<Rightarrow> token \<Rightarrow> (pstate \<times> frame list) option" where
  "parse_step PValue st t = start_value t st"
| "parse_step PValueOrEnd st t = (if t = TRBracket then close_frame t st else start_value t st)"
| "parse_step PKeyOrEnd st t = (if t = TRBrace then close_frame t st else take_key t st)"
| "parse_step PKey st t = take_key t st"
| "parse_step PColon st t = (if t = TColon then Some (PValue, st) else None)"
| "parse_step PAfter st t =
     (if t = TComma then
        (case st of
           FArray es # _ \<Rightarrow> Some (PValue, st)
         | FObject ps k # _ \<Rightarrow> Some (PKey, st)
         | [] \<Rightarrow> None)
      else close_frame t st)"
| "parse_step (PDone v) st t = None"

fun parse_tokens :: "pstate \<Rightarrow> frame list \<Rightarrow> token list \<Rightarrow> json option" where
  "parse_tokens p st [] = (case p of PDone v \<Rightarrow> Some v | _ \<Rightarrow> None)"
| "parse_tokens p st (t # ts) =
     (case parse_step p st t of
        None \<Rightarrow> None
      | Some (p', st') \<Rightarrow> parse_tokens p' st' ts)"

text \<open>\<open>JSON.parse(text)\<close>; \<open>None\<close> is the \<open>SyntaxError\<close> it throws.\<close>

definition JSON_parse :: "jsstring \<Rightarrow> json option" where
  "JSON_parse text =
     (case tokenize text of
        None \<Rightarrow> None
      | Some ts \<Rightarrow> parse_tokens PValue [] ts)"

text \<open>
  \<open>value.error\<close>: on \<open>null\<close> a \<open>TypeError\<close>; on an object the member written last under
  that name; otherwise \<open>undefined\<close> (\<open>None\<close>).
\<close>

definition get_property :: "json \<Rightarrow> jsstring \<Rightarrow> js_error + json option" where
  "get_property v name =
     (case v of
        JNull \<Rightarrow> Inl LibraryError
      | JObject ps \<Rightarrow> Inr (map_of (rev ps) name)
      | _ \<Rightarrow> Inr None)"

text \<open>
  Truthiness. A number is falsy when it is zero as a double: when its exact value is
  zero or rounds to zero, that is when it is at most \<open>2\<^sup>-\<^sup>1\<^sup>0\<^sup>7\<^sup>5\<close> in size.
\<close>

fun truthy :: "json option \<Rightarrow> bool" where
  "truthy None = False"
| "truthy (Some JNull) = False"
| "truthy (Some (JBool b)) = b"
| "truthy (Some (JNumber m e)) =
     (m \<noteq> 0 \<and> (0 \<le> e \<or> 10 ^ nat (- e) < \<bar>m\<bar> * 2 ^ 1075))"
| "truthy (Some (JString s)) = (s \<noteq> [])"
| "truthy (Some (JArray _)) = True"
| "truthy (Some (JObject _)) = True"


section \<open>processChunk (core/streaming.ts)\<close>

text \<open>
  What processChunk needs from the platform and cannot be written out here: zlib's
  \<open>gunzip\<close> (the decompressed bytes, or \<open>None\<close> when it fails) and \<open>JSON.stringify\<close>. Every
  theorem holds for any such pair.
\<close>

record js_env =
  gunzip :: "u8 list \<Rightarrow> u8 list option"
  JSON_stringify :: "json \<Rightarrow> jsstring"

text \<open>\<open>try { body } catch (error) { handler }\<close>\<close>

definition try_catch :: "js_error + 'a \<Rightarrow> (js_error \<Rightarrow> js_error + 'a) \<Rightarrow> js_error + 'a" where
  "try_catch body handler = (case body of Inl e \<Rightarrow> handler e | Inr v \<Rightarrow> Inr v)"

text \<open>\<open>data[0] === 0x1f && data[1] === 0x8b\<close>; an index beyond the end reads \<open>undefined\<close>.\<close>

definition gzip_magic :: "u8 list \<Rightarrow> bool" where
  "gzip_magic data = (case data of a # b # _ \<Rightarrow> a = 0x1F \<and> b = 0x8B | _ \<Rightarrow> False)"

text \<open>\<open>decompressGzipData\<close>: the promise resolves with the text or rejects.\<close>

definition decompressGzipData :: "js_env \<Rightarrow> u8 list \<Rightarrow> js_error + jsstring" where
  "decompressGzipData env data =
     (case gunzip env data of
        None \<Rightarrow> Inl LibraryError
      | Some decompressed \<Rightarrow> Inr (utf8_decode decompressed))"

text \<open>The header test of processChunk; the chunk is longer than five bytes here.\<close>

definition headerSize_of :: "u8 list \<Rightarrow> nat" where
  "headerSize_of chunk =
     (case chunk of
        a # b # c # _ \<Rightarrow>
          if a = 0x01 \<and> b = 0x00 \<and> c = 0x00 then 5
          else if a = 0x02 \<and> b = 0x00 \<and> c = 0x00 then 5
          else if a = 0x1F \<and> b = 0x8B then 0
          else 0
      | _ \<Rightarrow> 0)"

text \<open>
  \<open>text.match(/\{[^]*?\}/)\<close>: from the first \<open>{\<close> to the first \<open>}\<close> after it. (When the first
  \<open>{\<close> has no \<open>}\<close> after it, no later one has.)
\<close>

definition match_braces :: "jsstring \<Rightarrow> jsstring option" where
  "match_braces text =
     (case dropWhile (\<lambda>c. c \<noteq> 0x7B) text of
        [] \<Rightarrow> None
      | b # r \<Rightarrow>
          (case dropWhile (\<lambda>c. c \<noteq> 0x7D) r of
             [] \<Rightarrow> None
           | e # _ \<Rightarrow> Some (b # takeWhile (\<lambda>c. c \<noteq> 0x7D) r @ [e])))"

text \<open>
  The test for a JSON error response, with its own \<open>try\<close>: the thrown API error passes
  the \<open>catch\<close>, any other error ends the test and the text is cleaned as usual.
\<close>

definition throw_if_error :: "js_env \<Rightarrow> jsstring \<Rightarrow> js_error + unit" where
  \<open>throw_if_error env text =
     (if str_includes text (js ''{"error"'') then
        try_catch
          (case match_braces text of
             None \<Rightarrow> Inr ()
           | Some jsonMatch \<Rightarrow>
               (case JSON_parse jsonMatch of
                  None \<Rightarrow> Inl LibraryError
                | Some parsed \<Rightarrow>
                    (case get_property parsed (js ''error'') of
                       Inl e \<Rightarrow> Inl e
                     | Inr err \<Rightarrow>
                         if truthy err then
                           Inl (Error (js ''API Error: '' @
                             (let s = (case err of Some v \<Rightarrow> JSON_stringify env v | None \<Rightarrow> [])
                              in if s = [] then js ''Unknown error'' else s)))
                         else Inr ())))
          (\<lambda>error. if is_API_Error error then Inl error else Inr ())
      else Inr ())\<close>

text \<open>\<open>fallbackText.replace(/[\x00-\x1F\x7F-\x9F\uFFFD]/g, '')\<close>\<close>

definition strip_control :: "jsstring \<Rightarrow> jsstring" where
  "strip_control s = filter (\<lambda>c. \<not> (c \<le> 0x1F \<or> (0x7F \<le> c \<and> c \<le> 0x9F) \<or> c = 0xFFFD)) s"

text \<open>
  The part of processChunk after the header block: bare gzip, then the length-prefixed
  messages, then plain text. \<open>None\<close> is a call of parseHexResponse that does not return.
\<close>

definition process_unframed :: "js_env \<Rightarrow> u8 list \<Rightarrow> (js_error + jsstring) option" where
  "process_unframed env chunk =
     (if gzip_magic chunk then
        Some (try_catch
               (case decompressGzipData env chunk of
                  Inl e \<Rightarrow> Inl e
                | Inr decompressed \<Rightarrow> Inr (cleanResponseText decompressed))
               (\<lambda>error. Inr []))
      else
        (case parseHexResponse (toHex chunk) of
           None \<Rightarrow> None
         | Some messages \<Rightarrow>
             if length messages > 0 then Some (Inr (concat messages))
             else Some (Inr (cleanResponseText (utf8_decode chunk)))))"

definition processChunk_try :: "js_env \<Rightarrow> u8 list \<Rightarrow> (js_error + jsstring) option" where
  "processChunk_try env chunk =
     (if length chunk > 5 then
        let headerSize = headerSize_of chunk;
            payload = drop headerSize chunk
        in if gzip_magic payload then
             Some (try_catch
                    (case decompressGzipData env payload of
                       Inl e \<Rightarrow> Inl e
                     | Inr decompressed \<Rightarrow> Inr (cleanResponseText decompressed))
                    (\<lambda>error. Inr []))
           else if headerSize > 0 then
             let text = utf8_decode payload
             in Some (case throw_if_error env text of
                        Inl e \<Rightarrow> Inl e
                      | Inr _ \<Rightarrow> Inr (cleanResponseText text))
           else process_unframed env chunk
      else process_unframed env chunk)"

definition processChunk :: "js_env \<Rightarrow> u8 list \<Rightarrow> (js_error + jsstring) option" where
  "processChunk env chunk =
     map_option
       (\<lambda>result. try_catch result
          (\<lambda>error. if is_API_Error error then Inl error
                    else Inr (trim (strip_control (utf8_decode chunk)))))
       (processChunk_try env chunk)"


subsection \<open>Sample inputs\<close>

text \<open>The bytes of an ASCII literal.\<close>

definition ascii :: "string \<Rightarrow> u8 list" where
  "ascii s = map (\<lambda>c. of_nat (of_char c)) s"

text \<open>
  A platform for the examples. Its \<open>gunzip\<close> rejects every input, as zlib rejects bytes
  that are not a gzip stream; its \<open>JSON.stringify\<close> is right on \<open>null\<close>, on booleans and on
  strings that need no escape, the only values it is applied to in the examples.
\<close>

definition sample_env :: js_env where
  "sample_env =
     \<lparr>gunzip = (\<lambda>data. None),
      JSON_stringify = (\<lambda>v. case v of
          JString s \<Rightarrow> [0x22] @ s @ [0x22]
        | JBool b \<Rightarrow> (if b then js ''true'' else js ''false'')
        | _ \<Rightarrow> js ''null'')\<rparr>"


section \<open>CursorStream (core/streaming.ts)\<close>

subsection \<open>Chunks and the stream controller\<close>

text \<open>
  A \<open>ChatCompletionChunk\<close> with its one choice: \<open>delta_content\<close> is \<open>choices[0].delta.content\<close>
  and \<open>finish_reason\<close> is \<open>choices[0].finish_reason\<close>, each \<open>None\<close> when the property is
  absent. (\<open>object\<close> and \<open>choices[0].index\<close> are constants.)
\<close>

record chunk =
  chunk_id :: jsstring
  created :: int
  chunk_model :: jsstring
  delta_content :: "jsstring option"
  finish_reason :: "jsstring option"

text \<open>
  The \<open>ReadableStreamDefaultController\<close> of the Streams standard, as far as the source
  uses it: \<open>enqueue\<close> and \<open>close\<close> throw a \<open>TypeError\<close> once the stream is closing or no
  longer readable; \<open>close\<close> closes at once when the queue is empty and otherwise when the
  last chunk is read; \<open>error\<close> does nothing unless the stream is readable, and empties the
  queue when it is.
\<close>

datatype stream_status = Readable | Closed | Errored js_error

record controller =
  queue :: "chunk list"
  closeRequested :: bool
  status :: stream_status

definition canCloseOrEnqueue :: "controller \<Rightarrow> bool" where
  "canCloseOrEnqueue c \<longleftrightarrow> \<not> closeRequested c \<and> status c = Readable"

definition controller_enqueue :: "chunk \<Rightarrow> controller \<Rightarrow> js_error + controller" where
  "controller_enqueue x c =
     (if canCloseOrEnqueue c then Inr (c\<lparr>queue := queue c @ [x]\<rparr>) else Inl LibraryError)"

definition controller_close :: "controller \<Rightarrow> js_error + controller" where
  "controller_close c =
     (if canCloseOrEnqueue c
      then Inr (c\<lparr>closeRequested := True,
                   status := (if queue c = [] then Closed else Readable)\<rparr>)
      else Inl LibraryError)"

definition controller_error :: "js_error \<Rightarrow> controller \<Rightarrow> controller" where
  "controller_error e c =
     (if status c = Readable then c\<lparr>queue := [], status := Errored e\<rparr> else c)"

subsection \<open>The state of a CursorStream\<close>

text \<open>
  The fields of the class, and \<open>enqueued\<close>: every chunk the controller has accepted, in
  order. \<open>enqueued\<close> is not a field of the source; it is what the stream has put out.
\<close>

record cursor_stream =
  responseId :: jsstring
  model_name :: jsstring
  done_flag :: bool
  lastActivity :: int
  chunkCount :: nat
  emptyChunkCount :: nat
  ctl :: controller
  enqueued :: "chunk list"

definition idleTimeout :: int where
  "idleTimeout = 10000"

text \<open>\<open>new CursorStream(response, responseId, model)\<close> at time \<open>now\<close>, then \<open>toStream()\<close>.\<close>

definition new_CursorStream :: "jsstring \<Rightarrow> jsstring \<Rightarrow> int \<Rightarrow> cursor_stream" where
  "new_CursorStream rid m now =
     \<lparr>responseId = rid, model_name = m, done_flag = False, lastActivity = now,
      chunkCount = 0, emptyChunkCount = 0,
      ctl = \<lparr>queue = [], closeRequested = False, status = Readable\<rparr>,
      enqueued = []\<rparr>"

text \<open>
  A step that may throw returns the state reached, or the error together with the state
  at the throw: what was assigned before the throw stays assigned.
\<close>

type_synonym stepped = "(js_error \<times> cursor_stream) + cursor_stream"

definition do_enqueue :: "cursor_stream \<Rightarrow> chunk \<Rightarrow> stepped" where
  "do_enqueue st x =
     (case controller_enqueue x (ctl st) of
        Inl e \<Rightarrow> Inl (e, st)
      | Inr c \<Rightarrow> Inr (st\<lparr>ctl := c, enqueued := enqueued st @ [x]\<rparr>))"

definition content_chunk :: "cursor_stream \<Rightarrow> jsstring \<Rightarrow> int \<Rightarrow> chunk" where
  "content_chunk st content now =
     \<lparr>chunk_id = responseId st, created = now div 1000, chunk_model = model_name st,
      delta_content = Some content, finish_reason = None\<rparr>"

definition final_chunk :: "cursor_stream \<Rightarrow> int \<Rightarrow> chunk" where
  "final_chunk st now =
     \<lparr>chunk_id = responseId st, created = now div 1000, chunk_model = model_name st,
      delta_content = None, finish_reason = Some (js ''stop'')\<rparr>"

definition enqueueChunk :: "cursor_stream \<Rightarrow> jsstring \<Rightarrow> int \<Rightarrow> stepped" where
  "enqueueChunk st content now = do_enqueue st (content_chunk st content now)"

definition enqueueFinalChunk :: "cursor_stream \<Rightarrow> int \<Rightarrow> stepped" where
  "enqueueFinalChunk st now = do_enqueue st (final_chunk st now)"

definition do_close :: "cursor_stream \<Rightarrow> stepped" where
  "do_close st =
     (case controller_close (ctl st) of
        Inl e \<Rightarrow> Inl (e, st)
      | Inr c \<Rightarrow> Inr (st\<lparr>ctl := c\<rparr>))"

text \<open>
  \<open>if (!this.done) { this.enqueueFinalChunk(); this.done = true }
  this.controller.close(); return\<close>
\<close>

definition finish_stream :: "cursor_stream \<Rightarrow> int \<Rightarrow> stepped" where
  "finish_stream st now =
     (if \<not> done_flag st then
        (case enqueueFinalChunk st now of
           Inl x \<Rightarrow> Inl x
         | Inr st1 \<Rightarrow> do_close (st1\<lparr>done_flag := True\<rparr>))
      else do_close st)"

subsection \<open>pull\<close>

text \<open>
  What one call of \<open>pull\<close> takes from outside: the value that wins the race between
  \<open>reader.read()\<close> and the five-second timer, and the clock. \<open>ReadResult d v\<close> is
  \<open>{done: d, value: v}\<close> with \<open>None\<close> for \<open>undefined\<close>; the timer resolves to
  \<open>ReadResult True None\<close>. \<open>t_read\<close> is \<open>Date.now()\<close> after the read, \<open>t_emit\<close> is
  \<open>Date.now()\<close> when a chunk is built.
\<close>

datatype read_result = ReadResult bool "u8 list option" | ReadRejected js_error

record pull_input =
  result :: read_result
  t_read :: int
  t_emit :: int

text \<open>
  The end-of-stream marker test: \<open>value.length >= 5\<close>, the first three bytes \<open>02 00 00\<close>,
  and the rest after five bytes, as UTF-8 and trimmed, is \<open>{}\<close>.
\<close>

definition end_marker :: "u8 list \<Rightarrow> bool" where
  "end_marker v =
     (case v of
        a # b # c # _ # _ # payload \<Rightarrow>
          a = 0x02 \<and> b = 0x00 \<and> c = 0x00 \<and> trim (utf8_decode payload) = js ''{}''
      | _ \<Rightarrow> False)"

text \<open>The body of the \<open>try\<close> in \<open>pull\<close>. \<open>None\<close>: processChunk does not return.\<close>

definition pull_try :: "js_env \<Rightarrow> cursor_stream \<Rightarrow> pull_input \<Rightarrow> stepped option" where
  "pull_try env st inp =
     (if done_flag st then Some (do_close st)
      else
        (case result inp of
           ReadRejected e \<Rightarrow> Some (Inl (e, st))
         | ReadResult d value \<Rightarrow>
             if d then Some (finish_stream st (t_emit inp))
             else
               (case value of
                  None \<Rightarrow>
                    if chunkCount st > 0 \<and> t_read inp - lastActivity st > idleTimeout
                    then Some (finish_stream st (t_emit inp))
                    else Some (Inr st)
                | Some v \<Rightarrow>
                    let st1 = st\<lparr>lastActivity := t_read inp\<rparr> in
                    (case processChunk env v of
                       None \<Rightarrow> None
                     | Some (Inl e) \<Rightarrow> Some (Inl (e, st1))
                     | Some (Inr text) \<Rightarrow>
                         if end_marker v then Some (finish_stream st1 (t_emit inp))
                         else if length text = 0 then
                           let st2 = st1\<lparr>emptyChunkCount := emptyChunkCount st1 + 1\<rparr> in
                           if chunkCount st2 > 0 \<and> emptyChunkCount st2 \<ge> 2
                           then Some (finish_stream st2 (t_emit inp))
                           else Some (Inr st2)
                         else
                           let st2 = st1\<lparr>emptyChunkCount := 0\<rparr> in
                           Some (case enqueueChunk st2 text (t_emit inp) of
                                   Inl x \<Rightarrow> Inl x
                                 | Inr st3 \<Rightarrow> Inr (st3\<lparr>chunkCount := chunkCount st3 + 1\<rparr>))))))"

text \<open>\<open>pull\<close>: the \<open>catch\<close> hands the error to \<open>controller.error\<close>.\<close>

definition pull :: "js_env \<Rightarrow> cursor_stream \<Rightarrow> pull_input \<Rightarrow> cursor_stream option" where
  "pull env st inp =
     map_option
       (\<lambda>r. case r of
               Inr st' \<Rightarrow> st'
             | Inl (e, st') \<Rightarrow> st'\<lparr>ctl := controller_error e (ctl st')\<rparr>)
       (pull_try env st inp)"

subsection \<open>The stream and its consumer\<close>

text \<open>
  A read by the consumer: the next queued chunk; after the last one of a closing stream
  the stream is closed; on an empty queue the read waits (\<open>Pending\<close>) for a later pull.
\<close>

datatype read_outcome = Got chunk | StreamClosed | StreamError js_error | Pending

definition consumer_read :: "cursor_stream \<Rightarrow> cursor_stream \<times> read_outcome" where
  "consumer_read st =
     (case status (ctl st) of
        Errored e \<Rightarrow> (st, StreamError e)
      | Closed \<Rightarrow> (st, StreamClosed)
      | Readable \<Rightarrow>
          (case queue (ctl st) of
             [] \<Rightarrow> (st, Pending)
           | x # rest \<Rightarrow>
               (st\<lparr>ctl := (ctl st)\<lparr>queue := rest,
                     status := (if closeRequested (ctl st) \<and> rest = [] then Closed else Readable)\<rparr>\<rparr>,
                Got x)))"

text \<open>
  The stream calls \<open>pull\<close> only while the controller can still enqueue
  (ReadableStreamDefaultControllerShouldCallPull). A run is any sequence of pulls and
  reads; it gives the last state and the outcomes of the reads.
\<close>

datatype action = Pull pull_input | Read

fun run :: "js_env \<Rightarrow> cursor_stream \<Rightarrow> action list \<Rightarrow> (cursor_stream \<times> read_outcome list) option" where
  "run env st [] = Some (st, [])"
| "run env st (Pull inp # acts) =
     (if canCloseOrEnqueue (ctl st)
      then (case pull env st inp of None \<Rightarrow> None | Some st' \<Rightarrow> run env st' acts)
      else run env st acts)"
| "run env st (Read # acts) =
     (case consumer_read st of
        (st', out) \<Rightarrow> map_option (\<lambda>(s, outs). (s, out # outs)) (run env st' acts))"

text \<open>The two kinds of chunk.\<close>

definition is_content_chunk :: "chunk \<Rightarrow> bool" where
  "is_content_chunk x \<longleftrightarrow>
     (case delta_content x of None \<Rightarrow> False | Some s \<Rightarrow> s \<noteq> []) \<and> finish_reason x = None"

definition is_final_chunk :: "chunk \<Rightarrow> bool" where
  "is_final_chunk x \<longleftrightarrow> delta_content x = None \<and> finish_reason x = Some (js ''stop'')"

text \<open>What has been put out so far: content chunks, then the final chunk exactly when \<open>done\<close> is set.\<close>

definition emitted_ok :: "cursor_stream \<Rightarrow> bool" where
  "emitted_ok st \<longleftrightarrow>
     (if done_flag st
      then enqueued st \<noteq> [] \<and> list_all is_content_chunk (butlast (enqueued st))
           \<and> is_final_chunk (last (enqueued st))
      else list_all is_content_chunk (enqueued st))"

text \<open>The state a step ends in, thrown or not.\<close>

definition state_of :: "stepped \<Rightarrow> cursor_stream" where
  "state_of r = (case r of Inr st \<Rightarrow> st | Inl (e, st) \<Rightarrow> st)"

text \<open>The reads of a run.\<close>

fun count_reads :: "action list \<Rightarrow> nat" where
  "count_reads [] = 0"
| "count_reads (Pull inp # acts) = count_reads acts"
| "count_reads (Read # acts) = Suc (count_reads acts)"

subsection \<open>A sample run\<close>

text \<open>
  A new stream, a frame that carries \<open>Hello\<close>, the end of the transport, and the state
  the stream is in after the two.
\<close>

definition sample_stream :: cursor_stream where
  "sample_stream = new_CursorStream (js ''chatcmpl-1'') (js ''gpt-4o'') 0"

definition sample_frame_input :: pull_input where
  "sample_frame_input =
     \<lparr>result = ReadResult False (Some ([0x02, 0x00, 0x00, 0x00, 0x05] @ ascii ''Hello'')),
      t_read = 10, t_emit = 1000\<rparr>"

definition sample_end_input :: pull_input where
  "sample_end_input = \<lparr>result = ReadResult True None, t_read = 20, t_emit = 2000\<rparr>"

definition sample_hello_chunk :: chunk where
  "sample_hello_chunk =
     \<lparr>chunk_id = js ''chatcmpl-1'', created = 1, chunk_model = js ''gpt-4o'',
      delta_content = Some (js ''Hello''), finish_reason = None\<rparr>"

definition sample_final_chunk :: chunk where
  "sample_final_chunk =
     \<lparr>chunk_id = js ''chatcmpl-1'', created = 2, chunk_model = js ''gpt-4o'',
      delta_content = None, finish_reason = Some (js ''stop'')\<rparr>"

definition sample_finished :: cursor_stream where
  "sample_finished =
     \<lparr>responseId = js ''chatcmpl-1'', model_name = js ''gpt-4o'', done_flag = True,
      lastActivity = 10, chunkCount = 1, emptyChunkCount = 0,
      ctl = \<lparr>queue = [sample_hello_chunk, sample_final_chunk],
              closeRequested = True, status = Readable\<rparr>,
      enqueued = [sample_hello_chunk, sample_final_chunk]\<rparr>"


section \<open>Requests (lib/protobuf.ts)\<close>

subsection \<open>The protobufjs writer\<close>

text \<open>
  \<open>Writer.uint32(value)\<close>: \<open>value >>> 0\<close> in groups of seven bits, lowest first, the top bit
  set on every byte but the last.
\<close>

lemma drop_bit_7_smaller: "(127 :: u32) < val \<Longrightarrow> unat (drop_bit 7 val) < unat val"
proof -
  assume "127 < val"
  then have "0 < unat val" by (simp add: word_less_nat_alt)
  moreover have "unat (drop_bit 7 val) = unat val div 128"
    by (simp add: drop_bit_eq_div unat_div)
  ultimately show ?thesis by simp
qed

function writeVarint32 :: "u32 \<Rightarrow> u8 list" where
  "writeVarint32 val =
     (if 127 < val then ucast ((val AND 127) OR 128) # writeVarint32 (drop_bit 7 val)
      else [ucast val])"
  by pat_completeness auto
termination
  by (relation "measure unat") (auto dest: drop_bit_7_smaller)

declare writeVarint32.simps [simp del]

text \<open>
  UTF-8 of a string, written two ways. \<open>utf8_encode\<close> is \<open>Buffer\<close>'s: a surrogate pair is one
  code point of four bytes, a surrogate without its partner becomes U+FFFD (\<open>EF BF BD\<close>).
  \<open>utf8_write\<close> is \<open>util.utf8.write\<close> of protobufjs: the same, but a surrogate without its
  partner is written as its own three bytes.
\<close>

definition isHighSurrogate :: "u16 \<Rightarrow> bool" where
  "isHighSurrogate c \<longleftrightarrow> 0xD800 \<le> c \<and> c \<le> 0xDBFF"

definition isLowSurrogate :: "u16 \<Rightarrow> bool" where
  "isLowSurrogate c \<longleftrightarrow> 0xDC00 \<le> c \<and> c \<le> 0xDFFF"

definition utf8_1 :: "u16 \<Rightarrow> u8 list" where
  "utf8_1 c =
     (if c < 0x80 then [ucast c]
      else if c < 0x800 then [0xC0 OR ucast (drop_bit 6 c), 0x80 OR ucast (c AND 0x3F)]
      else [0xE0 OR ucast (drop_bit 12 c), 0x80 OR ucast (drop_bit 6 c AND 0x3F),
            0x80 OR ucast (c AND 0x3F)])"

definition utf8_pair :: "u16 \<Rightarrow> u16 \<Rightarrow> u8 list" where
  "utf8_pair hi lo =
     (let cp = (0x10000 :: u32) + push_bit 10 (ucast (hi AND 0x3FF)) + ucast (lo AND 0x3FF)
      in [0xF0 OR ucast (drop_bit 18 cp), 0x80 OR ucast (drop_bit 12 cp AND 0x3F),
          0x80 OR ucast (drop_bit 6 cp AND 0x3F), 0x80 OR ucast (cp AND 0x3F)])"

fun utf8_encode :: "jsstring \<Rightarrow> u8 list" where
  "utf8_encode [] = []"
| "utf8_encode [c] =
     (if isHighSurrogate c \<or> isLowSurrogate c then [0xEF, 0xBF, 0xBD] else utf8_1 c)"
| "utf8_encode (c # d # r) =
     (if isHighSurrogate c \<and> isLowSurrogate d then utf8_pair c d @ utf8_encode r
      else if isHighSurrogate c \<or> isLowSurrogate c then [0xEF, 0xBF, 0xBD] @ utf8_encode (d # r)
      else utf8_1 c @ utf8_encode (d # r))"

fun utf8_write :: "jsstring \<Rightarrow> u8 list" where
  "utf8_write [] = []"
| "utf8_write [c] = utf8_1 c"
| "utf8_write (c # d # r) =
     (if isHighSurrogate c \<and> isLowSurrogate d then utf8_pair c d @ utf8_write r
      else utf8_1 c @ utf8_write (d # r))"

text \<open>
  \<open>Writer.bytes\<close>: the length as a varint, then the bytes. \<open>BufferWriter.string\<close>: the length
  is \<open>Buffer.byteLength(value)\<close>; a string of fewer than 40 code units is written by
  \<open>util.utf8.write\<close>, a longer one by \<open>Buffer\<close>.
\<close>

definition write_bytes :: "u8 list \<Rightarrow> u8 list" where
  "write_bytes b = writeVarint32 (of_nat (length b)) @ b"

definition write_string :: "jsstring \<Rightarrow> u8 list" where
  "write_string s =
     writeVarint32 (of_nat (length (utf8_encode s)))
     @ (if length s < 40 then utf8_write s else utf8_encode s)"

text \<open>
  \<open>Writer.int32(value)\<close>: a value below zero is written as the ten bytes of its 64-bit
  two's complement, any other as \<open>uint32\<close>. The numbers here are integers.
\<close>

function writeVarint64 :: "int \<Rightarrow> u8 list" where
  "writeVarint64 n =
     (if 127 < n then of_int (n mod 128 + 128) # writeVarint64 (n div 128) else [of_int n])"
  by pat_completeness auto
termination
  by (relation "measure nat") auto

declare writeVarint64.simps [simp del]

definition write_int32 :: "int \<Rightarrow> u8 list" where
  "write_int32 v =
     (if v < 0 then writeVarint64 ((2 ^ 64 + v) mod 2 ^ 64)
      else writeVarint32 (of_int v))"

text \<open>
  \<open>writer.uint32(tag).fork().ldelim()\<close>: the tag, then the length of what was written
  since \<open>fork\<close>, which is nothing: the tag and a zero byte.
\<close>

definition write_fork_ldelim :: "u32 \<Rightarrow> u8 list" where
  "write_fork_ldelim tag = writeVarint32 tag @ writeVarint32 0"

subsection \<open>The request message\<close>

text \<open>
  The interfaces of the source; a field that may be \<open>null\<close> is an option. The fields carry a
  prefix for the record they belong to.
\<close>

record ChatMessage =
  msg_role :: jsstring
  msg_content :: jsstring

record IChatMessage_UserMessage =
  um_content :: "jsstring option"
  um_role :: "int option"
  um_messageId :: "jsstring option"

record IChatMessage_Instructions =
  ins_instruction :: "jsstring option"

record IChatMessage_Model =
  mdl_name :: "jsstring option"
  mdl_empty :: "jsstring option"

record IChatMessage =
  cm_messages :: "IChatMessage_UserMessage list option"
  cm_instructions :: "IChatMessage_Instructions option"
  cm_projectPath :: "jsstring option"
  cm_model :: "IChatMessage_Model option"
  cm_requestId :: "jsstring option"
  cm_summary :: "jsstring option"
  cm_conversationId :: "jsstring option"

text \<open>
  \<open>uuidv4()\<close> is taken from outside: \<open>uuid k\<close> is what its \<open>k\<close>-th call returns. The
  messages take the first calls in order, then the request id, then the conversation id.
\<close>

definition convertToCursorFormat ::
  "(nat \<Rightarrow> jsstring) \<Rightarrow> ChatMessage list \<Rightarrow> jsstring \<Rightarrow> IChatMessage" where
  "convertToCursorFormat uuid msgs modelName =
     \<lparr>cm_messages = Some (map (\<lambda>(k, msg).
          \<lparr>um_content = Some (msg_content msg),
           um_role = Some (if msg_role msg = js ''user'' then 1 else 2),
           um_messageId = Some (uuid k)\<rparr>) (enumerate 0 msgs)),
      cm_instructions = Some \<lparr>ins_instruction = Some (js ''Always respond in the user's preferred language'')\<rparr>,
      cm_projectPath = Some (js ''/cursor-sdk-project''),
      cm_model = Some \<lparr>mdl_name = Some modelName, mdl_empty = Some []\<rparr>,
      cm_requestId = Some (uuid (length msgs)),
      cm_summary = Some [],
      cm_conversationId = Some (uuid (length msgs + 1))\<rparr>"

text \<open>A field that is written only when it is not \<open>null\<close>: its tag, then its value.\<close>

definition opt_field :: "u32 \<Rightarrow> ('a \<Rightarrow> u8 list) \<Rightarrow> 'a option \<Rightarrow> u8 list" where
  "opt_field tag write v = (case v of None \<Rightarrow> [] | Some x \<Rightarrow> writeVarint32 tag @ write x)"

definition encode_UserMessage :: "IChatMessage_UserMessage \<Rightarrow> u8 list" where
  "encode_UserMessage msg =
     opt_field 10 write_string (um_content msg)
     @ opt_field 16 write_int32 (um_role msg)
     @ opt_field 106 write_string (um_messageId msg)"

text \<open>
  One round of the loop over the messages: the line with \<open>fork().ldelim()\<close>, then the
  message itself as a field of tag 18.
\<close>

definition encode_message_entry :: "IChatMessage_UserMessage \<Rightarrow> u8 list" where
  "encode_message_entry msg =
     write_fork_ldelim 18 @ writeVarint32 18 @ write_bytes (encode_UserMessage msg)"

definition encodeChatMessage :: "IChatMessage \<Rightarrow> u8 list" where
  "encodeChatMessage message =
     (case cm_messages message of
        None \<Rightarrow> []
      | Some ms \<Rightarrow> if length ms > 0 then concat (map encode_message_entry ms) else [])
     @ opt_field 34 (\<lambda>i. write_bytes (opt_field 10 write_string (ins_instruction i)))
         (cm_instructions message)
     @ opt_field 42 write_string (cm_projectPath message)
     @ opt_field 58 (\<lambda>m. write_bytes (opt_field 10 write_string (mdl_name m)
                                       @ opt_field 34 write_string (mdl_empty m)))
         (cm_model message)
     @ opt_field 74 write_string (cm_requestId message)
     @ opt_field 90 write_string (cm_summary message)
     @ opt_field 122 write_string (cm_conversationId message)"

subsection \<open>createHexMessage\<close>

text \<open>\<open>n.toString(16)\<close> for a length, \<open>padStart(10, '0')\<close>, and \<open>toUpperCase\<close> on such text.\<close>

function toString16 :: "nat \<Rightarrow> jsstring" where
  "toString16 n = (if n < 16 then [hex_digit n] else toString16 (n div 16) @ [hex_digit (n mod 16)])"
  by pat_completeness auto
termination
  by (relation "measure id") auto

declare toString16.simps [simp del]

definition padStart :: "nat \<Rightarrow> u16 \<Rightarrow> jsstring \<Rightarrow> jsstring" where
  "padStart n c s = replicate (n - length s) c @ s"

text \<open>For the proofs: the \<open>k\<close> lowest hexadecimal digits of \<open>n\<close>, highest first.\<close>

fun digits16 :: "nat \<Rightarrow> nat \<Rightarrow> jsstring" where
  "digits16 0 n = []"
| "digits16 (Suc k) n = digits16 k (n div 16) @ [hex_digit (n mod 16)]"

definition toUpperCase :: "jsstring \<Rightarrow> jsstring" where
  "toUpperCase s = map (\<lambda>c. if 0x61 \<le> c \<and> c \<le> 0x7A then c - 0x20 else c) s"

definition createHexMessage :: "(nat \<Rightarrow> jsstring) \<Rightarrow> ChatMessage list \<Rightarrow> jsstring \<Rightarrow> u8 list" where
  "createHexMessage uuid msgs modelName =
     (let cursorMessage = convertToCursorFormat uuid msgs modelName;
          buffer = encodeChatMessage cursorMessage;
          hexString = toUpperCase (padStart 10 0x30 (toString16 (length buffer)) @ toHex buffer)
      in fromHex hexString)"


section \<open>ChatCompletions.create (resources/chat/completions.ts)\<close>

text \<open>
  The parameters of a request, as their type has them: \<open>messages\<close> is an array of
  messages whose \<open>role\<close> and \<open>content\<close> are strings, \<open>model\<close> is a string, \<open>stream\<close> is
  \<open>false\<close> when it is left out.
\<close>

record ChatCompletionCreateParams =
  p_messages :: "ChatMessage list"
  p_model :: jsstring
  p_stream :: bool

text \<open>The loop of validateParams over the messages; a string is falsy when it is empty.\<close>

fun validate_messages :: "ChatMessage list \<Rightarrow> js_error + unit" where
  "validate_messages [] = Inr ()"
| "validate_messages (message # rest) =
     (if msg_role message = [] \<or> msg_content message = [] then
        Inl (BadRequestError (js ''Each message must have role and content''))
      else if msg_role message \<notin> set [js ''system'', js ''user'', js ''assistant''] then
        Inl (BadRequestError (js ''Message role must be system, user, or assistant''))
      else validate_messages rest)"

definition validateParams :: "ChatCompletionCreateParams \<Rightarrow> js_error + unit" where
  "validateParams params =
     (if length (p_messages params) = 0 then
        Inl (BadRequestError (js ''Messages should be a non-empty array''))
      else if p_model params = [] then
        Inl (BadRequestError (js ''Model is required''))
      else validate_messages (p_messages params))"

text \<open>
  What \<open>create\<close> does up to the request it sends, with the calls it makes written down in
  order: the call of createHexMessage, then the \<open>client.post\<close> of createStream or of
  createCompletion with its path, its body and whether it streams. What \<open>create\<close> returns
  after that is made from the response; here it is the response id the request goes out
  under. The id is the call of \<open>uuidv4\<close> after those of createHexMessage.
\<close>

datatype call = Encode "ChatMessage list" jsstring | Post jsstring "u8 list" bool

definition create ::
  "(nat \<Rightarrow> jsstring) \<Rightarrow> ChatCompletionCreateParams \<Rightarrow> (js_error + jsstring) \<times> call list" where
  "create uuid params =
     (case validateParams params of
        Inl e \<Rightarrow> (Inl e, [])
      | Inr _ \<Rightarrow>
          let hexData = createHexMessage uuid (p_messages params) (p_model params);
              responseId = js ''chatcmpl-'' @ uuid (length (p_messages params) + 2)
          in (Inr responseId,
              [Encode (p_messages params) (p_model params),
               Post (js ''/aiserver.v1.AiService/StreamChat'') hexData (p_stream params)]))"

subsection \<open>Sample requests\<close>

definition sample_uuid :: "nat \<Rightarrow> jsstring" where
  "sample_uuid k = js ''id''"

definition sample_messages :: "ChatMessage list" where
  "sample_messages = [\<lparr>msg_role = js ''user'', msg_content = js ''Hello''\<rparr>]"

definition sample_params :: ChatCompletionCreateParams where
  "sample_params = \<lparr>p_messages = sample_messages, p_model = js ''gpt-4o'', p_stream = True\<rparr>"

definition sample_no_messages :: ChatCompletionCreateParams where
  "sample_no_messages = \<lparr>p_messages = [], p_model = js ''gpt-4o'', p_stream = False\<rparr>"

definition sample_empty_content :: ChatCompletionCreateParams where
  "sample_empty_content =
     \<lparr>p_messages = [\<lparr>msg_role = js ''user'', msg_content = []\<rparr>],
      p_model = js ''gpt-4o'', p_stream = False\<rparr>"

section \<open>Properties of the cleaning\<close>

lemma after_first_None_iff: "after_first m s = None \<longleftrightarrow> \<not> sublist m s"
  by (induction s) (auto simp: sublist_Cons_right)

lemma after_last_None_iff: "after_last m s = None \<longleftrightarrow> \<not> sublist m s"
  by (induction s) (auto simp: sublist_Cons_right split: option.splits)

lemma after_first_Some: "after_first m s = Some r \<Longrightarrow> \<exists>p. s = p @ m @ r"
proof (induction s)
  case Nil
  then show ?case by (auto split: if_splits)
next
  case (Cons c cs)
  show ?case
  proof (cases "prefix m (c # cs)")
    case True
    then obtain q where q: "c # cs = m @ q" by (auto simp: prefix_def)
    from Cons.prems True have "r = drop (length m) (c # cs)" by simp
    with q have "r = q" by simp
    with q show ?thesis by (metis append_Nil)
  next
    case False
    with Cons.prems have "after_first m cs = Some r" by simp
    from Cons.IH[OF this] obtain p where "cs = p @ m @ r" ..
    then have "c # cs = (c # p) @ m @ r" by simp
    then show ?thesis by blast
  qed
qed

lemma after_last_Some: "after_last m s = Some r \<Longrightarrow> \<exists>p. s = p @ m @ r"
proof (induction s)
  case Nil
  then show ?case by (auto split: if_splits)
next
  case (Cons c cs)
  show ?case
  proof (cases "after_last m cs")
    case (Some r')
    with Cons.prems have "r' = r" by simp
    with Some Cons.IH obtain p where "cs = p @ m @ r" by blast
    then have "c # cs = (c # p) @ m @ r" by simp
    then show ?thesis by blast
  next
    case None
    with Cons.prems have pre: "prefix m (c # cs)" and r: "r = drop (length m) (c # cs)"
      by (auto split: if_splits)
    from pre obtain q where q: "c # cs = m @ q" by (auto simp: prefix_def)
    with r have "r = q" by simp
    with q show ?thesis by (metis append_Nil)
  qed
qed

lemma after_last_rest_free:
  assumes "m \<noteq> []" "after_last m s = Some r"
  shows "\<not> sublist m r"
  using assms(2)
proof (induction s)
  case Nil
  with assms(1) show ?case by simp
next
  case (Cons c cs)
  show ?case
  proof (cases "after_last m cs")
    case (Some r')
    with Cons show ?thesis by simp
  next
    case None
    then have free: "\<not> sublist m cs" by (simp add: after_last_None_iff)
    from None Cons.prems have r: "r = drop (length m) (c # cs)"
      by (auto split: if_splits)
    from assms(1) have "suffix r cs"
      unfolding r by (cases m) (auto simp: suffix_drop)
    then have "sublist r cs" by (rule suffix_imp_sublist)
    with free show ?thesis using sublist_order.order_trans by blast
  qed
qed


lemma trim_Nil [simp]: "trim [] = []"
  by (simp add: trim_def)

lemma last_dropWhile: "dropWhile P xs \<noteq> [] \<Longrightarrow> last (dropWhile P xs) = last xs"
  by (induction xs) (auto split: if_splits)

lemma trimmed_trim: "trimmed (trim s)"
proof -
  define t where "t = dropWhile isWhiteSpace s"
  define u where "u = dropWhile isWhiteSpace (rev t)"
  have ts: "trim s = rev u" by (simp add: trim_def t_def u_def)
  show ?thesis
  proof (cases "u = []")
    case True
    then show ?thesis by (simp add: ts trimmed_def)
  next
    case False
    then have hu: "\<not> isWhiteSpace (hd u)"
      unfolding u_def by (metis hd_dropWhile)
    from False have "rev t \<noteq> []" unfolding u_def by auto
    then have tne: "t \<noteq> []" by simp
    then have ht: "\<not> isWhiteSpace (hd t)"
      unfolding t_def by (metis hd_dropWhile)
    from False have "last u = last (rev t)"
      unfolding u_def by (rule last_dropWhile)
    also have "\<dots> = hd t" using tne by (simp add: last_rev)
    finally have lu: "last u = hd t" .
    from False have "hd (rev u) = last u" by (simp add: hd_rev)
    moreover from False have "last (rev u) = hd u" by (simp add: last_rev)
    ultimately show ?thesis using hu ht lu False by (simp add: ts trimmed_def)
  qed
qed

lemma trim_trimmed: "trimmed s \<Longrightarrow> trim s = s"
proof (cases "s = []")
  case True
  then show ?thesis by simp
next
  case False
  assume "trimmed s"
  with False have h: "\<not> isWhiteSpace (hd s)" and l: "\<not> isWhiteSpace (last s)"
    by (auto simp: trimmed_def)
  from False h have 1: "dropWhile isWhiteSpace s = s" by (cases s) auto
  from False l have 2: "dropWhile isWhiteSpace (rev s) = rev s"
    by (cases "rev s") (auto simp: last_rev[symmetric] hd_rev)
  show ?thesis by (simp add: trim_def 1 2)
qed

lemma trim_idem: "trim (trim s) = trim s"
  by (rule trim_trimmed[OF trimmed_trim])

lemma sublist_trim: "sublist (trim s) s"
proof -
  have "suffix (dropWhile isWhiteSpace s) s" by (rule suffix_dropWhile)
  moreover have "suffix (dropWhile isWhiteSpace (rev (dropWhile isWhiteSpace s))) (rev (dropWhile isWhiteSpace s))"
    by (rule suffix_dropWhile)
  then have "prefix (trim s) (dropWhile isWhiteSpace s)"
    by (simp add: trim_def suffix_to_prefix)
  ultimately show ?thesis
    by (meson prefix_imp_sublist suffix_imp_sublist sublist_order.order_trans)
qed

lemma suffix_strip_newline_letter: "suffix (strip_newline_letter s) s"
  by (cases s) (auto simp: suffix_ConsI split: list.splits)

lemma strip_newline_letter_trimmed: "trimmed s \<Longrightarrow> strip_newline_letter s = s"
  by (cases s) (auto simp: trimmed_def isWhiteSpace_def)

lemma prefix_strip_trailing_braces: "prefix (strip_trailing_braces s) s"
  by (induction s) auto

lemma braces_tail_trimmed:
  assumes "trimmed s" "suffix t s" "braces_tail t"
  shows "suffix (js ''{}'') s"
proof -
  from assms(3) obtain r where d: "dropWhile isWhiteSpace t = 0x7B # 0x7D # r"
    and r: "list_all isWhiteSpace r"
    by (auto simp: braces_tail_def split: list.splits)
  have "suffix (dropWhile isWhiteSpace t) t" by (rule suffix_dropWhile)
  with assms(2) have suf: "suffix (0x7B # 0x7D # r) s"
    unfolding d using suffix_order.order_trans by blast
  then have sne: "s \<noteq> []" by auto
  have "r = []"
  proof (rule ccontr)
    assume "r \<noteq> []"
    with suf have "last s = last r" by (auto simp: suffix_def)
    moreover from r \<open>r \<noteq> []\<close> have "isWhiteSpace (last r)"
      by (simp add: list_all_iff)
    ultimately show False using assms(1) sne by (simp add: trimmed_def)
  qed
  with suf show ?thesis by (simp add: js_def)
qed

lemma strip_trailing_braces_id:
  assumes "\<And>t. suffix t s \<Longrightarrow> \<not> braces_tail t"
  shows "strip_trailing_braces s = s"
  using assms
proof (induction s)
  case Nil
  then show ?case by simp
next
  case (Cons c cs)
  have "\<not> braces_tail (c # cs)" using Cons.prems by simp
  moreover have "strip_trailing_braces cs = cs"
    by (rule Cons.IH) (use Cons.prems in \<open>simp add: suffix_ConsI\<close>)
  ultimately show ?case by simp
qed

lemma strip_trailing_braces_trimmed:
  "trimmed s \<Longrightarrow> \<not> suffix (js ''{}'') s \<Longrightarrow> strip_trailing_braces s = s"
  by (rule strip_trailing_braces_id) (use braces_tail_trimmed in blast)

lemma after_first_sublist: "after_first m s = Some r \<Longrightarrow> sublist r s"
proof -
  assume "after_first m s = Some r"
  from after_first_Some[OF this] obtain p where "s = (p @ m) @ r @ []" by auto
  then show ?thesis unfolding sublist_def by blast
qed

lemma systemPromptRegex_needs_END_USER:
  "systemPromptRegex_test s \<Longrightarrow> sublist END_USER s"
proof -
  assume "systemPromptRegex_test s"
  then obtain r1 r2 r3 where
    1: "after_first BEGIN_SYSTEM s = Some r1" and
    2: "after_first END_SYSTEM r1 = Some r2" and
    3: "after_first BEGIN_USER r2 = Some r3" and
    4: "after_first END_USER r3 \<noteq> None"
    by (auto simp: systemPromptRegex_test_def split: option.splits)
  from 4 have "sublist END_USER r3" by (simp add: after_first_None_iff)
  moreover from 3 have "sublist r3 r2" by (rule after_first_sublist)
  moreover from 2 have "sublist r2 r1" by (rule after_first_sublist)
  moreover from 1 have "sublist r1 s" by (rule after_first_sublist)
  ultimately show ?thesis using sublist_order.order_trans by blast
qed

lemma END_USER_not_Nil: "END_USER \<noteq> []"
  by (simp add: END_USER_def js_def)

lemma strip_to_END_USER_free: "\<not> sublist END_USER (strip_to_END_USER s)"
  by (auto simp: strip_to_END_USER_def after_last_None_iff
      dest: after_last_rest_free[OF END_USER_not_Nil] split: option.splits)

lemma strip_to_END_USER_id: "\<not> sublist END_USER s \<Longrightarrow> strip_to_END_USER s = s"
  by (simp add: strip_to_END_USER_def after_last_None_iff[symmetric])

lemma cleanResponseText_trimmed: "trimmed (cleanResponseText s)"
  by (auto simp: cleanResponseText_def Let_def trimmed_trim) (simp_all add: trimmed_def)

lemma cleanResponseText_free: "\<not> sublist END_USER (cleanResponseText s)"
proof (cases "cleanResponseText s = []")
  case True
  then show ?thesis using END_USER_not_Nil by simp
next
  case False
  define x1 where "x1 = strip_to_END_USER s"
  from False have eq: "cleanResponseText s = trim (strip_trailing_braces (trim (strip_newline_letter x1)))"
    by (auto simp: cleanResponseText_def Let_def x1_def split: if_splits)
  have "sublist (cleanResponseText s) x1"
    unfolding eq
    by (meson sublist_trim prefix_strip_trailing_braces suffix_strip_newline_letter
        prefix_imp_sublist suffix_imp_sublist sublist_order.order_trans)
  moreover have "\<not> sublist END_USER x1" unfolding x1_def by (rule strip_to_END_USER_free)
  ultimately show ?thesis using sublist_order.order_trans by blast
qed

lemma append_eq_rest:
  assumes "a @ q = m @ t" "length m \<le> length a"
  shows "\<exists>x. t = x @ q"
proof -
  from assms(1) have "drop (length m) (a @ q) = t" by simp
  with assms(2) have "t = drop (length m) a @ q" by simp
  then show ?thesis ..
qed

lemma after_first_leftmost: "\<exists>x. after_first m (p @ m @ q) = Some (x @ q)"
proof (induction p)
  case Nil
  show ?case
  proof (cases "m @ q")
    case Nil
    then show ?thesis by simp
  next
    case (Cons c cs)
    have "prefix m (m @ q)" by simp
    then have "after_first m (m @ q) = Some (drop (length m) (m @ q))"
      unfolding Cons by simp
    then show ?thesis by simp
  qed
next
  case (Cons c p)
  show ?case
  proof (cases "prefix m (c # p @ m @ q)")
    case True
    then obtain t where t: "(c # p @ m) @ q = m @ t" by (auto simp: prefix_def)
    from append_eq_rest[OF t] obtain x where x: "t = x @ q" by auto
    from True have "after_first m (c # p @ m @ q) = Some (drop (length m) (c # p @ m @ q))"
      by simp
    moreover from t have "drop (length m) (c # p @ m @ q) = t"
      by (metis append_Cons append_assoc append_eq_conv_conj)
    ultimately show ?thesis using x by simp
  next
    case False
    with Cons.IH show ?thesis by simp
  qed
qed

lemma systemPromptRegex_test_iff:
  "systemPromptRegex_test s \<longleftrightarrow>
     (\<exists>a b c d e. s = a @ BEGIN_SYSTEM @ b @ END_SYSTEM @ c @ BEGIN_USER @ d @ END_USER @ e)"
proof
  assume "systemPromptRegex_test s"
  then obtain r1 r2 r3 r4 where
    1: "after_first BEGIN_SYSTEM s = Some r1" and
    2: "after_first END_SYSTEM r1 = Some r2" and
    3: "after_first BEGIN_USER r2 = Some r3" and
    4: "after_first END_USER r3 = Some r4"
    by (auto simp: systemPromptRegex_test_def split: option.splits)
  from after_first_Some[OF 1] obtain a where a: "s = a @ BEGIN_SYSTEM @ r1" ..
  from after_first_Some[OF 2] obtain b where b: "r1 = b @ END_SYSTEM @ r2" ..
  from after_first_Some[OF 3] obtain c where c: "r2 = c @ BEGIN_USER @ r3" ..
  from after_first_Some[OF 4] obtain d where d: "r3 = d @ END_USER @ r4" ..
  have "s = a @ BEGIN_SYSTEM @ b @ END_SYSTEM @ c @ BEGIN_USER @ d @ END_USER @ r4"
    by (simp add: a b c d)
  then show "\<exists>a b c d e. s = a @ BEGIN_SYSTEM @ b @ END_SYSTEM @ c @ BEGIN_USER @ d @ END_USER @ e"
    by (intro exI)
next
  assume "\<exists>a b c d e. s = a @ BEGIN_SYSTEM @ b @ END_SYSTEM @ c @ BEGIN_USER @ d @ END_USER @ e"
  then obtain a b c d e where
    s: "s = a @ BEGIN_SYSTEM @ b @ END_SYSTEM @ c @ BEGIN_USER @ d @ END_USER @ e" by blast
  define q1 where "q1 = b @ END_SYSTEM @ c @ BEGIN_USER @ d @ END_USER @ e"
  define q2 where "q2 = c @ BEGIN_USER @ d @ END_USER @ e"
  define q3 where "q3 = d @ END_USER @ e"
  obtain x1 where 1: "after_first BEGIN_SYSTEM (a @ BEGIN_SYSTEM @ q1) = Some (x1 @ q1)"
    using after_first_leftmost by blast
  have e1: "x1 @ q1 = (x1 @ b) @ END_SYSTEM @ q2" by (simp add: q1_def q2_def)
  obtain x2 where 2: "after_first END_SYSTEM ((x1 @ b) @ END_SYSTEM @ q2) = Some (x2 @ q2)"
    using after_first_leftmost by blast
  have e2: "x2 @ q2 = (x2 @ c) @ BEGIN_USER @ q3" by (simp add: q2_def q3_def)
  obtain x3 where 3: "after_first BEGIN_USER ((x2 @ c) @ BEGIN_USER @ q3) = Some (x3 @ q3)"
    using after_first_leftmost by blast
  have e3: "x3 @ q3 = (x3 @ d) @ END_USER @ e" by (simp add: q3_def)
  obtain x4 where 4: "after_first END_USER ((x3 @ d) @ END_USER @ e) = Some (x4 @ e)"
    using after_first_leftmost by blast
  have s': "s = a @ BEGIN_SYSTEM @ q1" by (simp add: s q1_def)
  show "systemPromptRegex_test s"
    unfolding systemPromptRegex_test_def s' 1 option.case e1 2 e2 3 e3 4 by simp
qed

lemma after_last_END_USER:
  assumes "after_last END_USER post = None"
  shows "after_last END_USER (pre @ END_USER @ post) = Some post"
proof (induction pre)
  case Nil
  from assms show ?case by (simp add: END_USER_def js_def)
next
  case (Cons c pre)
  then show ?case by simp
qed

lemma trim_Cons_ws: "isWhiteSpace c \<Longrightarrow> trim (c # cs) = trim cs"
  by (simp add: trim_def)

lemma trim_Nil_iff: "trim s = [] \<longleftrightarrow> dropWhile isWhiteSpace s = []"
proof
  assume "dropWhile isWhiteSpace s = []"
  then show "trim s = []" by (simp add: trim_def del: dropWhile_eq_Nil_conv)
next
  assume a: "trim s = []"
  define t where "t = dropWhile isWhiteSpace s"
  from a have "dropWhile isWhiteSpace (rev t) = []"
    by (simp add: trim_def t_def del: dropWhile_eq_Nil_conv)
  then have all: "\<forall>x\<in>set t. isWhiteSpace x" by (simp add: dropWhile_eq_Nil_conv)
  show "dropWhile isWhiteSpace s = []"
  proof (rule ccontr)
    assume "dropWhile isWhiteSpace s \<noteq> []"
    then have "t \<noteq> []" by (simp add: t_def)
    then have "\<not> isWhiteSpace (hd t)" unfolding t_def by (rule hd_dropWhile)
    moreover from \<open>t \<noteq> []\<close> have "hd t \<in> set t" by simp
    ultimately show False using all by blast
  qed
qed

lemma trim_hd: "trim s = c # r \<Longrightarrow> \<exists>r'. dropWhile isWhiteSpace s = c # r'"
proof -
  assume a: "trim s = c # r"
  have "prefix (trim s) (dropWhile isWhiteSpace s)"
    using suffix_dropWhile[of isWhiteSpace "rev (dropWhile isWhiteSpace s)"]
    by (simp add: trim_def suffix_to_prefix)
  with a show ?thesis by (auto simp: prefix_def)
qed

lemma isAsciiLetter_not_ws: "isAsciiLetter d \<Longrightarrow> \<not> isWhiteSpace d"
  by (auto simp: isWhiteSpace_def isAsciiLetter_def word_le_nat_alt)

lemma in_set_dropWhile: "x \<in> set xs \<Longrightarrow> \<not> P x \<Longrightarrow> x \<in> set (dropWhile P xs)"
  by (induction xs) auto

lemma in_set_trim: "x \<in> set s \<Longrightarrow> \<not> isWhiteSpace x \<Longrightarrow> x \<in> set (trim s)"
  by (simp add: trim_def in_set_dropWhile)

lemma tail_of_blank:
  assumes "trim s = []"
  shows "trim (strip_trailing_braces (trim (strip_newline_letter s))) = []"
proof -
  have "trim (strip_newline_letter s) = []"
  proof (cases s)
    case Nil
    then show ?thesis by simp
  next
    case (Cons c cs)
    from assms have d: "dropWhile isWhiteSpace s = []" by (simp add: trim_Nil_iff)
    then have all: "\<forall>x\<in>set s. isWhiteSpace x" by (simp add: dropWhile_eq_Nil_conv)
    show ?thesis
    proof (cases "c = 0x0A")
      case False
      with Cons assms show ?thesis by simp
    next
      case True
      show ?thesis
      proof (cases cs)
        case Nil
        with True Cons show ?thesis by simp
      next
        case (Cons d ds)
        with all \<open>s = c # cs\<close> have "isWhiteSpace d" by simp
        then have "\<not> isAsciiLetter d" using isAsciiLetter_not_ws by blast
        moreover have "trim cs = []"
          using all \<open>s = c # cs\<close> by (simp add: trim_Nil_iff dropWhile_eq_Nil_conv)
        ultimately show ?thesis using True Cons \<open>s = c # cs\<close> by simp
      qed
    qed
  qed
  then show ?thesis by simp
qed

lemma tail_of_braces:
  assumes "trim s = js ''{}''"
  shows "trim (strip_trailing_braces (trim (strip_newline_letter s))) = []"
proof -
  have "trim (strip_newline_letter s) = js ''{}''"
  proof (cases s)
    case Nil
    with assms show ?thesis by (simp add: js_def)
  next
    case (Cons c cs)
    show ?thesis
    proof (cases "c = 0x0A")
      case False
      with Cons assms show ?thesis by simp
    next
      case True
      then have wc: "isWhiteSpace c" by (simp add: isWhiteSpace_def)
      with assms Cons have tcs: "trim cs = js ''{}''" by (simp add: trim_Cons_ws)
      show ?thesis
      proof (cases cs)
        case Nil
        with tcs show ?thesis by (simp add: js_def)
      next
        case (Cons d ds)
        have "\<not> isAsciiLetter d"
        proof
          assume l: "isAsciiLetter d"
          then have "dropWhile isWhiteSpace cs = d # ds"
            using Cons isAsciiLetter_not_ws by simp
          moreover from tcs obtain r' where "dropWhile isWhiteSpace cs = 0x7B # r'"
            using trim_hd[of cs "0x7B" "[0x7D]"] by (auto simp: js_def)
          ultimately have "d = 0x7B" by simp
          with l show False by (simp add: isAsciiLetter_def)
        qed
        with True Cons \<open>s = c # cs\<close> tcs show ?thesis by simp
      qed
    qed
  qed
  moreover have "strip_trailing_braces (js ''{}'') = []"
    by (simp add: js_def braces_tail_def isWhiteSpace_def)
  ultimately show ?thesis by simp
qed

lemma clean_after_marker:
  assumes "after_first END_USER post = None"
    and "\<not> systemPromptRegex_test (pre @ END_USER @ post)"
  shows "cleanResponseText (pre @ END_USER @ post)
         = trim (strip_trailing_braces (trim (strip_newline_letter post)))"
    and "cleanResponseText (pre @ END_USER @ post) = cleanResponseText post"
proof -
  let ?t = "pre @ END_USER @ post"
  from assms(1) have free: "\<not> sublist END_USER post" by (simp add: after_first_None_iff)
  then have al: "after_last END_USER post = None" by (simp add: after_last_None_iff)
  have sub: "sublist END_USER ?t" by (auto simp: sublist_def)
  have "sublist (trim ?t) ?t" by (rule sublist_trim)
  have t1: "trim ?t \<noteq> []"
  proof
    assume "trim ?t = []"
    then have "\<forall>x\<in>set ?t. isWhiteSpace x" by (simp add: trim_Nil_iff dropWhile_eq_Nil_conv)
    then have "\<forall>x\<in>set END_USER. isWhiteSpace x" by simp
    then show False by (simp add: END_USER_def js_def isWhiteSpace_def)
  qed
  have t2: "trim ?t \<noteq> js ''{}''"
  proof
    assume a: "trim ?t = js ''{}''"
    have "0x3C \<in> set END_USER" by (simp add: END_USER_def js_def)
    then have "0x3C \<in> set ?t" by simp
    moreover have "\<not> isWhiteSpace 0x3C" by (simp add: isWhiteSpace_def)
    ultimately have "0x3C \<in> set (trim ?t)" by (rule in_set_trim)
    then show False by (simp add: a js_def)
  qed
  show 1: "cleanResponseText ?t = trim (strip_trailing_braces (trim (strip_newline_letter post)))"
    using t1 t2 assms(2)
    by (simp add: cleanResponseText_def Let_def strip_to_END_USER_def after_last_END_USER[OF al])
  have np: "\<not> systemPromptRegex_test post"
    using free systemPromptRegex_needs_END_USER by blast
  show "cleanResponseText ?t = cleanResponseText post"
    unfolding 1 using np tail_of_blank tail_of_braces
    by (auto simp: cleanResponseText_def[of post] Let_def strip_to_END_USER_id[OF free])
qed


subsection \<open>Claims on the cleaning\<close>

text \<open>
  C8. The cleaning on marker-laden text. The text that holds the whole scaffold
  \<open><|BEGIN_SYSTEM|>S<|END_SYSTEM|><|BEGIN_USER|>U<|END_USER|>\<close> cleans to the empty
  string, and \<open>prefix<|END_USER|>\nCActual content\<close> cleans to \<open>Actual content\<close>. In
  general, when \<open>post\<close> holds no further \<open><|END_USER|>\<close>, cleaning
  \<open>pre<|END_USER|>post\<close> drops everything up to and including that last marker: the
  result is the cleaning of \<open>post\<close> alone (or the empty string when the scaffold pattern
  matches). When what remains starts with a newline and one ASCII letter, the two go
  together and the rest \<open>r\<close> is kept: the result is \<open>r\<close> trimmed and without a trailing
  \<open>{}\<close>.
\<close>

theorem clean_marker_stripping:
  "cleanResponseText (js ''<|BEGIN_SYSTEM|>S<|END_SYSTEM|><|BEGIN_USER|>U<|END_USER|>'') = []
   \<and> cleanResponseText (js ''prefix<|END_USER|>'' @ [0x0A] @ js ''CActual content'')
       = js ''Actual content''
   \<and> (\<forall>pre post. after_first END_USER post = None \<longrightarrow>
         cleanResponseText (pre @ END_USER @ post)
         = (if systemPromptRegex_test (pre @ END_USER @ post) then []
            else cleanResponseText post))
   \<and> (\<forall>pre c r. isAsciiLetter c \<and> after_first END_USER (0x0A # c # r) = None \<longrightarrow>
         cleanResponseText (pre @ END_USER @ 0x0A # c # r)
         = (if systemPromptRegex_test (pre @ END_USER @ 0x0A # c # r) then []
            else trim (strip_trailing_braces (trim r))))"
proof (intro conjI allI impI)
  show "cleanResponseText (js ''<|BEGIN_SYSTEM|>S<|END_SYSTEM|><|BEGIN_USER|>U<|END_USER|>'') = []"
    by code_simp
  show "cleanResponseText (js ''prefix<|END_USER|>'' @ [0x0A] @ js ''CActual content'')
       = js ''Actual content''"
    by code_simp
next
  fix pre post
  assume free: "after_first END_USER post = None"
  show "cleanResponseText (pre @ END_USER @ post)
         = (if systemPromptRegex_test (pre @ END_USER @ post) then []
            else cleanResponseText post)"
  proof (cases "systemPromptRegex_test (pre @ END_USER @ post)")
    case True
    then show ?thesis by (simp add: cleanResponseText_def)
  next
    case False
    with clean_after_marker(2)[OF free False] show ?thesis by simp
  qed
next
  fix pre c r
  assume a: "isAsciiLetter c \<and> after_first END_USER (0x0A # c # r) = None"
  show "cleanResponseText (pre @ END_USER @ 0x0A # c # r)
         = (if systemPromptRegex_test (pre @ END_USER @ 0x0A # c # r) then []
            else trim (strip_trailing_braces (trim r)))"
  proof (cases "systemPromptRegex_test (pre @ END_USER @ 0x0A # c # r)")
    case True
    then show ?thesis by (simp add: cleanResponseText_def)
  next
    case False
    from a have "strip_newline_letter (0x0A # c # r) = r" by simp
    with clean_after_marker(1)[of "0x0A # c # r" pre] a False show ?thesis by simp
  qed
qed

theorem clean_marker_stripping_witness:
  "after_first END_USER (0x0A # js ''CActual content'') = None
   \<and> isAsciiLetter 0x43
   \<and> cleanResponseText (js ''prefix'' @ END_USER @ 0x0A # js ''CActual content'')
       = cleanResponseText (0x0A # js ''CActual content'')
   \<and> cleanResponseText (js ''prefix'' @ END_USER @ 0x0A # 0x43 # js ''Actual content'')
       = js ''Actual content''"
proof -
  have free: "after_first END_USER (0x0A # js ''CActual content'') = None"
    by code_simp
  have free': "after_first END_USER (0x0A # 0x43 # js ''Actual content'') = None"
    by code_simp
  have letter: "isAsciiLetter 0x43"
    by (simp add: isAsciiLetter_def)
  have no: "\<not> systemPromptRegex_test (js ''prefix'' @ END_USER @ 0x0A # js ''CActual content'')"
    by code_simp
  have no': "\<not> systemPromptRegex_test (js ''prefix'' @ END_USER @ 0x0A # 0x43 # js ''Actual content'')"
    by code_simp
  have t: "trim (strip_trailing_braces (trim (js ''Actual content''))) = js ''Actual content''"
    by code_simp
  from clean_marker_stripping have
    g: "\<forall>pre post. after_first END_USER post = None \<longrightarrow>
         cleanResponseText (pre @ END_USER @ post)
         = (if systemPromptRegex_test (pre @ END_USER @ post) then []
            else cleanResponseText post)"
    and l: "\<forall>pre c r. isAsciiLetter c \<and> after_first END_USER (0x0A # c # r) = None \<longrightarrow>
         cleanResponseText (pre @ END_USER @ 0x0A # c # r)
         = (if systemPromptRegex_test (pre @ END_USER @ 0x0A # c # r) then []
            else trim (strip_trailing_braces (trim r)))"
    by blast+
  from g free no have 1: "cleanResponseText (js ''prefix'' @ END_USER @ 0x0A # js ''CActual content'')
       = cleanResponseText (0x0A # js ''CActual content'')"
    by simp
  from l letter free' no' t
  have 2: "cleanResponseText (js ''prefix'' @ END_USER @ 0x0A # 0x43 # js ''Actual content'')
       = js ''Actual content''"
    by simp
  from free letter 1 2 show ?thesis by blast
qed

text \<open>
  C9 as stated (cleaning is idempotent on every string) fails: only one trailing \<open>{}\<close> is
  removed per call, so \<open>ok{}{}\<close> cleans to \<open>ok{}\<close> and that cleans to \<open>ok\<close>.
\<close>

theorem clean_idempotent_counterexample:
  "cleanResponseText (js ''ok{}{}'') = js ''ok{}''
   \<and> cleanResponseText (cleanResponseText (js ''ok{}{}'')) = js ''ok''
   \<and> cleanResponseText (cleanResponseText (js ''ok{}{}'')) \<noteq> cleanResponseText (js ''ok{}{}'')"
  by code_simp

text \<open>
  C9, amended. Cleaning is idempotent on every text whose cleaned form does not end in
  \<open>{}\<close>: \<open>clean (clean x) = clean x\<close> then.
\<close>

theorem clean_idempotent_unless_braces:
  assumes "\<not> suffix (js ''{}'') (cleanResponseText x)"
  shows "cleanResponseText (cleanResponseText x) = cleanResponseText x"
proof -
  define y where "y = cleanResponseText x"
  have t: "trimmed y" unfolding y_def by (rule cleanResponseText_trimmed)
  have f: "\<not> sublist END_USER y" unfolding y_def by (rule cleanResponseText_free)
  have b: "\<not> suffix (js ''{}'') y" using assms by (simp add: y_def)
  then have ne: "y \<noteq> js ''{}''" by auto
  have ty: "trim y = y" by (rule trim_trimmed[OF t])
  have np: "\<not> systemPromptRegex_test y" using f systemPromptRegex_needs_END_USER by blast
  have "cleanResponseText y = y"
    using ty ne np
    by (simp add: cleanResponseText_def Let_def strip_to_END_USER_id[OF f]
        strip_newline_letter_trimmed[OF t] strip_trailing_braces_trimmed[OF t b])
  then show ?thesis by (simp add: y_def)
qed

theorem clean_idempotent_unless_braces_witness:
  "\<not> suffix (js ''{}'') (cleanResponseText (js ''Some text{}''))
   \<and> cleanResponseText (cleanResponseText (js ''Some text{}''))
       = cleanResponseText (js ''Some text{}'')"
proof -
  have h: "\<not> suffix (js ''{}'') (cleanResponseText (js ''Some text{}''))"
    by code_simp
  from h clean_idempotent_unless_braces[OF h] show ?thesis by blast
qed

section \<open>Properties of the framing\<close>

lemma hex_value_hex_digit: "n < 16 \<Longrightarrow> hex_value (hex_digit n) = Some n"
proof -
  assume "n < 16"
  then consider "n = 0" | "n = 1" | "n = 2" | "n = 3" | "n = 4" | "n = 5" | "n = 6" | "n = 7"
    | "n = 8" | "n = 9" | "n = 10" | "n = 11" | "n = 12" | "n = 13" | "n = 14" | "n = 15"
    by atomize_elim arith
  then show ?thesis
    by cases (simp_all add: hex_value_def hex_digit_def)
qed

lemma hex_digit_not_ws: "n < 16 \<Longrightarrow> \<not> isWhiteSpace (hex_digit n)"
proof -
  assume "n < 16"
  then consider "n = 0" | "n = 1" | "n = 2" | "n = 3" | "n = 4" | "n = 5" | "n = 6" | "n = 7"
    | "n = 8" | "n = 9" | "n = 10" | "n = 11" | "n = 12" | "n = 13" | "n = 14" | "n = 15"
    by atomize_elim arith
  then show ?thesis
    by cases (simp_all add: isWhiteSpace_def hex_digit_def)
qed

lemma hex_value_cases:
  "hex_value c = Some n \<Longrightarrow> n < 16 \<and> c \<noteq> 0x2D \<and> c \<noteq> 0x2B \<and> c \<noteq> 0x78 \<and> c \<noteq> 0x58"
  by (auto simp: hex_value_def word_le_nat_alt split: if_splits)

lemma length_toHex [simp]: "length (toHex bs) = 2 * length bs"
  by (induction bs) auto

lemma toHex_append [simp]: "toHex (xs @ ys) = toHex xs @ toHex ys"
  by (induction xs) auto

lemma fromHex_toHex [simp]: "fromHex (toHex bs) = bs"
proof (induction bs)
  case Nil
  then show ?case by simp
next
  case (Cons b bs)
  have "unat b < 256" using unsigned_less[of b] by simp
  then have "unat b div 16 < 16" by simp
  moreover have "unat b mod 16 < 16" by simp
  moreover have "(of_nat (16 * (unat b div 16) + unat b mod 16) :: u8) = b" by simp
  ultimately show ?case using Cons by (simp add: hex_value_hex_digit)
qed

lemma drop_toHex: "drop (2 * k) (toHex bs) = toHex (drop k bs)"
proof (induction bs arbitrary: k)
  case Nil
  then show ?case by simp
next
  case (Cons b bs)
  then show ?case by (cases k) auto
qed

lemma take_toHex: "take (2 * k) (toHex bs) = toHex (take k bs)"
proof (induction bs arbitrary: k)
  case Nil
  then show ?case by simp
next
  case (Cons b bs)
  then show ?case by (cases k) auto
qed

lemma js_slice_toHex:
  assumes "a \<le> b" "b \<le> length bs"
  shows "js_slice (toHex bs) (int (2 * a)) (int (2 * b)) = toHex (take (b - a) (drop a bs))"
proof -
  have 1: "nat (2 * int b - 2 * int a) = 2 * (b - a)" using assms by simp
  have 2: "nat (2 * int a) = 2 * a" by simp
  show ?thesis
    using assms by (simp add: js_slice_def Let_def min_def 1 2 drop_toHex take_toHex)
qed

lemma hex_run_toHex:
  "hex_run (toHex bs) = concat (map (\<lambda>b. [unat b div 16, unat b mod 16]) bs)"
proof (induction bs)
  case Nil
  then show ?case by simp
next
  case (Cons b bs)
  have "unat b < 256" using unsigned_less[of b] by simp
  then have "unat b div 16 < 16" by simp
  then show ?case using Cons by (simp add: hex_value_hex_digit)
qed

lemma foldl_nibbles:
  "foldl (\<lambda>a d. 16 * a + d) a (concat (map (\<lambda>b. [unat b div 16, unat b mod 16]) bs))
   = foldl (\<lambda>a b. 256 * a + unat b) a bs"
proof (induction bs arbitrary: a)
  case Nil
  then show ?case by simp
next
  case (Cons b bs)
  have "16 * (16 * a + unat b div 16) + unat b mod 16 = 256 * a + unat b"
    by simp
  then show ?case using Cons[of "256 * a + unat b"] by (simp add: ac_simps)
qed

lemma foldl_int:
  "foldl (\<lambda>a d. 16 * a + int d) (int a) ds = int (foldl (\<lambda>a d. 16 * a + d) a ds)"
proof (induction ds arbitrary: a)
  case Nil
  then show ?case by simp
next
  case (Cons d ds)
  have "16 * int a + int d = int (16 * a + d)" by simp
  then show ?case using Cons[of "16 * a + d"] by simp
qed

lemma parseInt16_toHex:
  assumes "bs \<noteq> []"
  shows "parseInt16 (toHex bs) = Some (int (be_value bs))"
proof -
  from assms obtain b r where bs: "bs = b # r" by (cases bs) auto
  define d1 where "d1 = hex_digit (unat b div 16)"
  define d2 where "d2 = hex_digit (unat b mod 16)"
  have "unat b < 256" using unsigned_less[of b] by simp
  then have n1: "unat b div 16 < 16" by simp
  have n2: "unat b mod 16 < 16" by simp
  have h: "toHex bs = d1 # d2 # toHex r" by (simp add: bs d1_def d2_def)
  have v1: "hex_value d1 = Some (unat b div 16)" unfolding d1_def by (rule hex_value_hex_digit[OF n1])
  have v2: "hex_value d2 = Some (unat b mod 16)" unfolding d2_def by (rule hex_value_hex_digit[OF n2])
  have w: "\<not> isWhiteSpace d1" unfolding d1_def by (rule hex_digit_not_ws[OF n1])
  from hex_value_cases[OF v1] have s1: "d1 \<noteq> 0x2D" "d1 \<noteq> 0x2B" by auto
  from hex_value_cases[OF v2] have s2: "d2 \<noteq> 0x78" "d2 \<noteq> 0x58" by auto
  have 0: "strip_0x (toHex bs) = toHex bs" by (simp add: h strip_0x_def s2)
  have ne: "hex_run (toHex bs) \<noteq> []" by (simp add: h v1)
  have "parseInt16 (toHex bs) = Some (digits_value (hex_run (toHex bs)))"
    using w s1 ne unfolding parseInt16_def h[symmetric] Let_def 
    by (simp add: h 0[unfolded h])
  then show ?thesis
    by (simp add: digits_value_def hex_run_toHex foldl_int[of 0, simplified]
        foldl_nibbles be_value_def)
qed


lemma push_message_toHex: "push_message res (toHex m) = res @ collect m"
  by (simp add: push_message_def collect_def split: sum.splits option.splits)

lemma parseHex_loop_bytes:
  "k \<le> length bs \<Longrightarrow> off = int (2 * k) \<Longrightarrow>
   parseHex_loop (toHex bs) off res
   = Some (res @ filter (\<lambda>m. m \<noteq> []) (parseFramedMessages (drop k bs)))"
proof (induction "length bs - k" arbitrary: k res off rule: less_induct)
  case less
  let ?L = "length bs"
  define hex where "hex = toHex bs"
  have lh: "int (length hex) = 2 * int ?L" by (simp add: hex_def)
  have off: "off = 2 * int k" using less.prems by simp
  show ?case
  proof (cases "?L - k < 5")
    case True
    then have "parseFramedMessages (drop k bs) = []"
      by (subst parseFramedMessages.simps) simp
    moreover have "\<not> off < int (length hex) \<or> off + 10 > int (length hex)"
      using True less.prems unfolding lh off by linarith
    then have "parseHex_loop hex off res = Some res"
      by (subst parseHex_loop.simps) auto
    ultimately show ?thesis by (simp add: hex_def)
  next
    case False
    then have k5: "k + 5 \<le> ?L" by simp
    define five where "five = take 5 (drop k bs)"
    define n where "n = be_value five"
    have five_ne: "five \<noteq> []" using k5 by (auto simp: five_def)
    have "js_slice (toHex bs) (int (2 * k)) (int (2 * (k + 5))) = toHex five"
      using js_slice_toHex[of k "k + 5" bs] k5 by (simp add: five_def)
    moreover have "int (2 * (k + 5)) = off + 10" by (simp add: off)
    ultimately have sl: "js_slice hex off (off + 10) = toHex five"
      using less.prems by (simp add: hex_def)
    have pi: "parseInt16 (toHex five) = Some (int n)"
      unfolding n_def by (rule parseInt16_toHex[OF five_ne])
    have c1: "off < int (length hex)" using k5 unfolding lh off by linarith
    have c2: "\<not> off + 10 > int (length hex)" using k5 unfolding lh off by linarith
    show ?thesis
    proof (cases "5 + n > ?L - k")
      case True
      then have "parseFramedMessages (drop k bs) = []"
        using False by (subst parseFramedMessages.simps) (simp add: five_def n_def Let_def)
      moreover have c3: "off + 10 + int n * 2 > int (length hex)"
        using True k5 unfolding lh off by linarith
      have "parseHex_loop hex off res = Some res"
        by (subst parseHex_loop.simps) (simp only: c1 c2 c3 sl pi not_True_eq_False if_False if_True option.case)
      ultimately show ?thesis by (simp add: hex_def)
    next
      case fits: False
      define m where "m = take n (drop (k + 5) bs)"
      define k' where "k' = k + 5 + n"
      define off' where "off' = off + 10 + int n * 2"
      have k'L: "k' \<le> ?L" using fits by (simp add: k'_def)
      have c3: "\<not> off' > int (length hex)"
        using fits k5 unfolding lh off off'_def by linarith
      have off': "off' = int (2 * k')" by (simp add: k'_def off off'_def)
      have "js_slice (toHex bs) (int (2 * (k + 5))) (int (2 * k')) = toHex m"
        using js_slice_toHex[of "k + 5" k' bs] k'L by (simp add: m_def k'_def)
      moreover have "int (2 * (k + 5)) = off + 10" by (simp add: off)
      ultimately have sl2: "js_slice hex (off + 10) off' = toHex m"
        using off' by (simp add: hex_def)
      have step: "parseHex_loop hex off res = parseHex_loop hex off' (res @ collect m)"
        by (subst parseHex_loop.simps)
           (simp only: c1 c2 c3 sl pi sl2 off'_def[symmetric] push_message_toHex
              not_True_eq_False if_False if_True option.case)
      have "?L - k' < ?L - k" using k5 by (simp add: k'_def)
      from less.hyps[OF this k'L off']
      have ih: "parseHex_loop (toHex bs) off' (res @ collect m)
                = Some ((res @ collect m) @ filter (\<lambda>m. m \<noteq> []) (parseFramedMessages (drop k' bs)))" .
      have "5 + n + k = k'" by (simp add: k'_def)
      then have dd: "drop (5 + n + k) bs = drop k' bs" by simp
      have "5 + k = k + 5" by simp
      then have mm: "take n (drop (5 + k) bs) = m" by (simp only: m_def)
      have "parseFramedMessages (drop k bs)
            = (case decodeResMessage m of Inr (Some msg) \<Rightarrow> [msg] | Inr None \<Rightarrow> [] | Inl e \<Rightarrow> [])
              @ parseFramedMessages (drop k' bs)"
        using False fits
        by (subst parseFramedMessages.simps) (simp add: five_def[symmetric] n_def[symmetric] Let_def dd mm)
      then have "filter (\<lambda>m. m \<noteq> []) (parseFramedMessages (drop k bs))
            = collect m @ filter (\<lambda>m. m \<noteq> []) (parseFramedMessages (drop k' bs))"
        by (simp add: collect_def split: sum.splits option.splits)
      with step ih show ?thesis by (simp add: hex_def)
    qed
  qed
qed

lemma parseHexResponse_bytes:
  "parseHexResponse (toHex bs) = Some (filter (\<lambda>m. m \<noteq> []) (parseFramedMessages bs))"
  using parseHex_loop_bytes[of 0 bs 0 "[]"] by (simp add: parseHexResponse_def)

lemma be_value_be5: "n < 2 ^ 40 \<Longrightarrow> be_value (be5 n) = n"
proof -
  assume n: "n < 2 ^ 40"
  define q1 where "q1 = n div 256"
  define q2 where "q2 = q1 div 256"
  define q3 where "q3 = q2 div 256"
  define q4 where "q4 = q3 div 256"
  have u: "unat (of_nat x :: u8) = x mod 256" for x
    by (simp add: unat_of_nat)
  have d2: "n div 2 ^ 16 = q2" unfolding q2_def q1_def by (simp add: div_mult2_eq)
  have d3: "n div 2 ^ 24 = q3" unfolding q3_def q2_def q1_def by (simp add: div_mult2_eq)
  have d4: "n div 2 ^ 32 = q4" unfolding q4_def q3_def q2_def q1_def by (simp add: div_mult2_eq)
  have d1: "n div 2 ^ 8 = q1" unfolding q1_def by simp
  have "q4 < 256" using n unfolding d4[symmetric] by (simp add: less_mult_imp_div_less)
  then have m4: "q4 mod 256 = q4" by simp
  have e3: "256 * q4 + q3 mod 256 = q3" unfolding q4_def by simp
  have e2: "256 * q3 + q2 mod 256 = q2" unfolding q3_def by simp
  have e1: "256 * q2 + q1 mod 256 = q1" unfolding q2_def by simp
  have e0: "256 * q1 + n mod 256 = n" unfolding q1_def by simp
  have "be_value (be5 n) =
        256 * (256 * (256 * (256 * (q4 mod 256) + q3 mod 256) + q2 mod 256) + q1 mod 256) + n mod 256"
    unfolding be_value_def be5_def d1 d2 d3 d4 by (simp add: u)
  also have "\<dots> = n" unfolding m4 e3 e2 e1 e0 ..
  finally show ?thesis .
qed

lemma length_be5 [simp]: "length (be5 n) = 5"
  by (simp add: be5_def)

lemma parseFramedMessages_frame:
  assumes "length m < 2 ^ 40"
  shows "parseFramedMessages (frame m @ rest)
         = (case decodeResMessage m of Inr (Some msg) \<Rightarrow> [msg] | Inr None \<Rightarrow> [] | Inl e \<Rightarrow> [])
           @ parseFramedMessages rest"
proof -
  have t: "take 5 (frame m @ rest) = be5 (length m)" by (simp add: frame_def)
  have n: "be_value (take 5 (frame m @ rest)) = length m"
    unfolding t by (rule be_value_be5[OF assms])
  have d5: "drop 5 (frame m @ rest) = m @ rest" by (simp add: frame_def)
  have l: "length (frame m @ rest) = 5 + length m + length rest" by (simp add: frame_def)
  have dd: "drop (5 + length m) (frame m @ rest) = rest" by (simp add: frame_def)
  show ?thesis
    by (subst parseFramedMessages.simps) (simp only: n l d5 dd Let_def, simp)
qed

lemma parseFramedMessages_stop:
  "length bs < 5 \<or> length bs < 5 + be_value (take 5 bs) \<Longrightarrow> parseFramedMessages bs = []"
  by (subst parseFramedMessages.simps) (auto simp: Let_def)


subsection \<open>Claims on parseHexResponse\<close>

text \<open>
  C6 as stated fails on two inputs made of a well-formed first message and a second one.

    \<^item> The first message is \<open>0A 00\<close> (\<open>msg = ""\<close>) and the second, \<open>FF FF FF\<close>, does not
      decode. The source pushes a message only \<open>if (message.msg)\<close>, so nothing is returned,
      where the claim has the first message's text returned and every decoded \<open>msg\<close>
      collected.
    \<^item> The first message is \<open>0A 05 Hello\<close> and the second is \<open>0A 0A 48 69\<close>: a \<open>msg\<close> field
      that declares ten bytes where two remain. \<open>reader.string()\<close> of a buffer reader does
      not throw here, it cuts the string at the end of the message, so the second message
      decodes to \<open>Hi\<close> and both texts are returned, where the claim has only the first.
\<close>

theorem parseHexResponse_skip_counterexample:
  "decodeResMessage [0x0A, 0x00] = Inr (Some [])
   \<and> decodeResMessage [0xFF, 0xFF, 0xFF] = Inl LibraryError
   \<and> parseFramedMessages (frame [0x0A, 0x00] @ frame [0xFF, 0xFF, 0xFF]) = [[]]
   \<and> parseHexResponse (toHex (frame [0x0A, 0x00] @ frame [0xFF, 0xFF, 0xFF])) = Some []
   \<and> parseHexResponse (toHex (frame [0x0A, 0x00] @ frame [0xFF, 0xFF, 0xFF])) \<noteq> Some [[]]
   \<and> decodeResMessage [0x0A, 0x05, 0x48, 0x65, 0x6C, 0x6C, 0x6F] = Inr (Some (js ''Hello''))
   \<and> decodeResMessage [0x0A, 0x0A, 0x48, 0x69] = Inr (Some (js ''Hi''))
   \<and> parseHexResponse
         (toHex (frame [0x0A, 0x05, 0x48, 0x65, 0x6C, 0x6C, 0x6F] @ frame [0x0A, 0x0A, 0x48, 0x69]))
       = Some [js ''Hello'', js ''Hi'']"
proof -
  have f1: "frame [0x0A, 0x00] = [0, 0, 0, 0, 2, 0x0A, 0x00]"
    by (simp add: frame_def be5_def)
  have f2: "frame [0xFF, 0xFF, 0xFF] = [0, 0, 0, 0, 3, 0xFF, 0xFF, 0xFF]"
    by (simp add: frame_def be5_def)
  have f3: "frame [0x0A, 0x05, 0x48, 0x65, 0x6C, 0x6C, 0x6F]
            = [0, 0, 0, 0, 7, 0x0A, 0x05, 0x48, 0x65, 0x6C, 0x6C, 0x6F]"
    by (simp add: frame_def be5_def)
  have f4: "frame [0x0A, 0x0A, 0x48, 0x69] = [0, 0, 0, 0, 4, 0x0A, 0x0A, 0x48, 0x69]"
    by (simp add: frame_def be5_def)
  show ?thesis unfolding f1 f2 f3 f4 by code_simp
qed

text \<open>
  C6, amended. On the hexadecimal text of any bytes parseHexResponse returns, and what it
  returns is the scan of the specification without the empty strings. So: a message
  that decodeResMessage rejects is skipped and the scan goes on at the next length
  prefix; the non-empty decoded \<open>msg\<close> strings are collected in input order; the scan stops
  when fewer than five bytes remain or a declared length exceeds what remains; and one
  message with a non-empty \<open>msg\<close> followed by one that decodeResMessage rejects gives
  exactly the first text. The damage is stated as a rejection by decodeResMessage; which
  damaged messages it rejects is not part of this statement.
\<close>

theorem parseHexResponse_frames:
  "(\<forall>bs. parseHexResponse (toHex bs)
          = Some (filter (\<lambda>m. m \<noteq> []) (parseFramedMessages bs)))
   \<and> (\<forall>m rest. length m < 2 ^ 40 \<longrightarrow>
          parseFramedMessages (frame m @ rest)
          = (case decodeResMessage m of
               Inr (Some msg) \<Rightarrow> [msg] | Inr None \<Rightarrow> [] | Inl e \<Rightarrow> [])
            @ parseFramedMessages rest)
   \<and> (\<forall>bs. length bs < 5 \<or> length bs < 5 + be_value (take 5 bs) \<longrightarrow>
          parseFramedMessages bs = [])
   \<and> (\<forall>m1 m2 t e. length m1 < 2 ^ 40 \<and> length m2 < 2 ^ 40
          \<and> decodeResMessage m1 = Inr (Some t) \<and> t \<noteq> [] \<and> decodeResMessage m2 = Inl e \<longrightarrow>
          parseHexResponse (toHex (frame m1 @ frame m2)) = Some [t])"
proof (intro conjI allI impI)
  fix bs
  show "parseHexResponse (toHex bs) = Some (filter (\<lambda>m. m \<noteq> []) (parseFramedMessages bs))"
    by (rule parseHexResponse_bytes)
next
  fix m rest :: "u8 list"
  assume "length m < 2 ^ 40"
  then show "parseFramedMessages (frame m @ rest)
          = (case decodeResMessage m of
               Inr (Some msg) \<Rightarrow> [msg] | Inr None \<Rightarrow> [] | Inl e \<Rightarrow> [])
            @ parseFramedMessages rest"
    by (rule parseFramedMessages_frame)
next
  fix bs :: "u8 list"
  assume "length bs < 5 \<or> length bs < 5 + be_value (take 5 bs)"
  then show "parseFramedMessages bs = []"
    by (rule parseFramedMessages_stop)
next
  fix m1 m2 :: "u8 list" and t :: jsstring and e :: js_error
  assume a: "length m1 < 2 ^ 40 \<and> length m2 < 2 ^ 40
          \<and> decodeResMessage m1 = Inr (Some t) \<and> t \<noteq> [] \<and> decodeResMessage m2 = Inl e"
  have 0: "parseFramedMessages [] = []" by (rule parseFramedMessages_stop) simp
  from a have "parseFramedMessages (frame m2 @ []) = []"
    by (simp only: parseFramedMessages_frame 0) simp
  then have 2: "parseFramedMessages (frame m2) = []" by simp
  from a have "parseFramedMessages (frame m1 @ frame m2) = [t]"
    by (simp only: parseFramedMessages_frame 2) simp
  with a show "parseHexResponse (toHex (frame m1 @ frame m2)) = Some [t]"
    unfolding parseHexResponse_bytes by simp
qed

theorem parseHexResponse_frames_witness:
  "length [0x0A, 0x05, 0x48, 0x65, 0x6C, 0x6C, 0x6F :: u8] < 2 ^ 40
   \<and> length [0xFF, 0xFF, 0xFF :: u8] < 2 ^ 40
   \<and> decodeResMessage [0x0A, 0x05, 0x48, 0x65, 0x6C, 0x6C, 0x6F] = Inr (Some (js ''Hello''))
   \<and> js ''Hello'' \<noteq> []
   \<and> decodeResMessage [0xFF, 0xFF, 0xFF] = Inl LibraryError
   \<and> parseHexResponse
         (toHex (frame [0x0A, 0x05, 0x48, 0x65, 0x6C, 0x6C, 0x6F] @ frame [0xFF, 0xFF, 0xFF]))
       = Some [js ''Hello'']
   \<and> length [0x00, 0x00, 0x00 :: u8] < 5
   \<and> parseFramedMessages [0x00, 0x00, 0x00] = []"
proof -
  have l1: "length [0x0A, 0x05, 0x48, 0x65, 0x6C, 0x6C, 0x6F :: u8] < 2 ^ 40" by simp
  have l2: "length [0xFF, 0xFF, 0xFF :: u8] < 2 ^ 40" by simp
  have d1: "decodeResMessage [0x0A, 0x05, 0x48, 0x65, 0x6C, 0x6C, 0x6F] = Inr (Some (js ''Hello''))"
    by code_simp
  have ne: "js ''Hello'' \<noteq> []" by (simp add: js_def)
  have d2: "decodeResMessage [0xFF, 0xFF, 0xFF] = Inl LibraryError" by code_simp
  have l3: "length [0x00, 0x00, 0x00 :: u8] < 5" by simp
  from parseHexResponse_frames have
    two: "\<forall>m1 m2 t e. length m1 < 2 ^ 40 \<and> length m2 < 2 ^ 40
          \<and> decodeResMessage m1 = Inr (Some t) \<and> t \<noteq> [] \<and> decodeResMessage m2 = Inl e \<longrightarrow>
          parseHexResponse (toHex (frame m1 @ frame m2)) = Some [t]"
    and stop: "\<forall>bs. length bs < 5 \<or> length bs < 5 + be_value (take 5 bs) \<longrightarrow>
          parseFramedMessages bs = []"
    by blast+
  from two l1 l2 d1 ne d2 have r: "parseHexResponse
         (toHex (frame [0x0A, 0x05, 0x48, 0x65, 0x6C, 0x6C, 0x6F] @ frame [0xFF, 0xFF, 0xFF]))
       = Some [js ''Hello'']"
    by blast
  from stop l3 have s: "parseFramedMessages [0x00, 0x00, 0x00] = []" by blast
  from l1 l2 d1 ne d2 r l3 s show ?thesis by blast
qed


section \<open>Properties of processChunk\<close>

lemma is_API_Error_message: "is_API_Error (Error (js ''API Error: '' @ s))"
  by (simp add: js_def)

lemma get_property_Inl: "get_property v name = Inl e \<Longrightarrow> e = LibraryError"
  by (auto simp: get_property_def split: json.splits)

lemma throw_if_error_Inl:
  "throw_if_error env text = Inl e \<Longrightarrow> \<exists>s. e = Error (js ''API Error: '' @ s)"
  unfolding throw_if_error_def try_catch_def
  by (auto split: if_splits option.splits sum.splits simp: Let_def dest!: get_property_Inl)

lemma gzip_try_Inr:
  "\<exists>s. try_catch
          (case decompressGzipData env data of
             Inl e \<Rightarrow> Inl e
           | Inr decompressed \<Rightarrow> Inr (cleanResponseText decompressed))
          (\<lambda>error. Inr []) = Inr s"
  by (auto simp: try_catch_def split: sum.splits)

lemma gzip_try_fail:
  "gunzip env data = None \<Longrightarrow>
   try_catch
     (case decompressGzipData env data of
        Inl e \<Rightarrow> Inl e
      | Inr decompressed \<Rightarrow> Inr (cleanResponseText decompressed))
     (\<lambda>error. Inr []) = Inr []"
  by (simp add: try_catch_def decompressGzipData_def)

lemma process_unframed_returns: "\<exists>s. process_unframed env chunk = Some (Inr s)"
proof (cases "gzip_magic chunk")
  case True
  with gzip_try_Inr[of env chunk] show ?thesis by (auto simp: process_unframed_def)
next
  case False
  then show ?thesis by (simp add: process_unframed_def parseHexResponse_bytes)
qed

lemma processChunk_try_returns:
  "\<exists>r. processChunk_try env chunk = Some r
       \<and> (case r of Inr s \<Rightarrow> True | Inl e \<Rightarrow> \<exists>s. e = Error (js ''API Error: '' @ s))"
proof -
  define payload where "payload = drop (headerSize_of chunk) chunk"
  consider (gz) "length chunk > 5" "gzip_magic payload"
    | (hd) "length chunk > 5" "\<not> gzip_magic payload" "headerSize_of chunk > 0"
    | (un) "\<not> (length chunk > 5 \<and> (gzip_magic payload \<or> headerSize_of chunk > 0))"
    by atomize_elim auto
  then show ?thesis
  proof cases
    case gz
    with gzip_try_Inr[of env payload] show ?thesis
      by (auto simp: processChunk_try_def Let_def payload_def)
  next
    case hd
    then have "processChunk_try env chunk
        = Some (case throw_if_error env (utf8_decode payload) of
                  Inl e \<Rightarrow> Inl e
                | Inr _ \<Rightarrow> Inr (cleanResponseText (utf8_decode payload)))"
      unfolding payload_def by (simp add: processChunk_try_def Let_def)
    then show ?thesis
      using throw_if_error_Inl[of env "utf8_decode payload"]
      by (auto split: sum.splits)
  next
    case un
    then have "processChunk_try env chunk = process_unframed env chunk"
      by (auto simp: processChunk_try_def Let_def payload_def)
    with process_unframed_returns[of env chunk] show ?thesis by auto
  qed
qed

lemma processChunk_returns:
  "\<exists>r. processChunk env chunk = Some r
       \<and> (case r of Inr s \<Rightarrow> True | Inl e \<Rightarrow> \<exists>s. e = Error (js ''API Error: '' @ s))"
proof -
  from processChunk_try_returns[of env chunk] obtain r where
    r: "processChunk_try env chunk = Some r"
    and c: "case r of Inr s \<Rightarrow> True | Inl e \<Rightarrow> \<exists>s. e = Error (js ''API Error: '' @ s)"
    by blast
  show ?thesis
  proof (cases r)
    case (Inl e)
    with c obtain s where "e = Error (js ''API Error: '' @ s)" by auto
    with Inl r show ?thesis
      by (simp add: processChunk_def try_catch_def is_API_Error_message)
  next
    case (Inr s)
    with r show ?thesis by (simp add: processChunk_def try_catch_def)
  qed
qed

lemma processChunk_gzip_failure:
  assumes "data = (if length chunk > 5 then drop (headerSize_of chunk) chunk else chunk)"
    and "gzip_magic data" and "gunzip env data = None"
  shows "processChunk env chunk = Some (Inr [])"
proof (cases "length chunk > 5")
  case True
  with assms gzip_try_fail[of env data] show ?thesis
    by (simp add: processChunk_def processChunk_try_def Let_def try_catch_def)
next
  case False
  with assms gzip_try_fail[of env data] show ?thesis
    by (simp add: processChunk_def processChunk_try_def process_unframed_def try_catch_def)
qed

lemma prefix_API_Error: "prefix (js ''API Error:'') (js ''API Error: '' @ s)"
  by (simp add: js_def)

lemma processChunk_headered_text:
  assumes "a = 0x01 \<or> a = 0x02" "payload \<noteq> []" "\<not> gzip_magic payload"
  shows "processChunk env (a # 0 # 0 # x # y # payload)
         = Some (case throw_if_error env (utf8_decode payload) of
                   Inl e \<Rightarrow> Inl e
                 | Inr u \<Rightarrow> Inr (cleanResponseText (utf8_decode payload)))"
proof -
  have h: "headerSize_of (a # 0 # 0 # x # y # payload) = 5"
    using assms(1) by (auto simp: headerSize_of_def)
  have d: "drop 5 (a # 0 # 0 # x # y # payload) = payload" by simp
  have l: "length (a # 0 # 0 # x # y # payload) > 5"
    using assms(2) by (cases payload) auto
  have t: "processChunk_try env (a # 0 # 0 # x # y # payload)
           = Some (case throw_if_error env (utf8_decode payload) of
                     Inl e \<Rightarrow> Inl e
                   | Inr u \<Rightarrow> Inr (cleanResponseText (utf8_decode payload)))"
    unfolding processChunk_try_def Let_def h d using l assms(3) by simp
  show ?thesis
  proof (cases "throw_if_error env (utf8_decode payload)")
    case (Inl e)
    then obtain s where "e = Error (js ''API Error: '' @ s)"
      using throw_if_error_Inl by blast
    with Inl t show ?thesis
      by (simp add: processChunk_def try_catch_def prefix_API_Error)
  next
    case (Inr u)
    with t show ?thesis by (simp add: processChunk_def try_catch_def)
  qed
qed





subsection \<open>Claims on processChunk\<close>

text \<open>
  C5. processChunk returns for every chunk, and what it returns is a string or a thrown
  error whose message starts with \<open>API Error: \<close>; no other error leaves it. When the
  data handed to gunzip (the payload after a header, or the whole chunk) has the gzip
  magic and gunzip fails, the result is the empty string.
\<close>

theorem processChunk_total:
  "(\<forall>env chunk. \<exists>r. processChunk env chunk = Some r
        \<and> (case r of Inr text \<Rightarrow> True
                     | Inl e \<Rightarrow> \<exists>s. e = Error (js ''API Error: '' @ s)))
   \<and> (\<forall>env chunk data.
         data = (if length chunk > 5 then drop (headerSize_of chunk) chunk else chunk)
         \<and> gzip_magic data \<and> gunzip env data = None
         \<longrightarrow> processChunk env chunk = Some (Inr []))"
  using processChunk_returns processChunk_gzip_failure by blast

theorem processChunk_total_witness:
  "gzip_magic [0x1F, 0x8B, 0x08, 0x00]
   \<and> gunzip sample_env [0x1F, 0x8B, 0x08, 0x00] = None
   \<and> processChunk sample_env [0x1F, 0x8B, 0x08, 0x00] = Some (Inr [])
   \<and> gzip_magic (drop (headerSize_of [0x01, 0x00, 0x00, 0x04, 0x1B, 0x1F, 0x8B, 0xFF])
                    [0x01, 0x00, 0x00, 0x04, 0x1B, 0x1F, 0x8B, 0xFF])
   \<and> processChunk sample_env [0x01, 0x00, 0x00, 0x04, 0x1B, 0x1F, 0x8B, 0xFF] = Some (Inr [])"
proof -
  have g0: "gunzip sample_env data = None" for data
    by (simp add: sample_env_def)
  have m1: "gzip_magic [0x1F, 0x8B, 0x08, 0x00]"
    by (simp add: gzip_magic_def)
  have m2: "gzip_magic (drop (headerSize_of [0x01, 0x00, 0x00, 0x04, 0x1B, 0x1F, 0x8B, 0xFF])
                    [0x01, 0x00, 0x00, 0x04, 0x1B, 0x1F, 0x8B, 0xFF])"
    by (simp add: gzip_magic_def headerSize_of_def)
  from processChunk_total have
    gz: "\<forall>env chunk data.
         data = (if length chunk > 5 then drop (headerSize_of chunk) chunk else chunk)
         \<and> gzip_magic data \<and> gunzip env data = None
         \<longrightarrow> processChunk env chunk = Some (Inr [])"
    by blast
  from gz[rule_format, of "[0x1F, 0x8B, 0x08, 0x00]" "[0x1F, 0x8B, 0x08, 0x00]" sample_env] m1 g0
  have r1: "processChunk sample_env [0x1F, 0x8B, 0x08, 0x00] = Some (Inr [])"
    by simp
  from gz[rule_format, of _ "[0x01, 0x00, 0x00, 0x04, 0x1B, 0x1F, 0x8B, 0xFF]" sample_env] m2 g0
  have r2: "processChunk sample_env [0x01, 0x00, 0x00, 0x04, 0x1B, 0x1F, 0x8B, 0xFF] = Some (Inr [])"
    by simp
  from m1 g0 r1 m2 r2 show ?thesis by blast
qed





section \<open>Properties of the stream\<close>

lemma is_final_final_chunk: "is_final_chunk (final_chunk st now)"
  by (simp add: is_final_chunk_def final_chunk_def)

lemma is_content_content_chunk: "text \<noteq> [] \<Longrightarrow> is_content_chunk (content_chunk st text now)"
  by (simp add: is_content_chunk_def content_chunk_def)

lemma final_not_content: "is_final_chunk x \<Longrightarrow> \<not> is_content_chunk x"
  by (simp add: is_final_chunk_def is_content_chunk_def)

lemma do_enqueue_Inr:
  "do_enqueue st x = Inr st' \<Longrightarrow>
     enqueued st' = enqueued st @ [x] \<and> done_flag st' = done_flag st
     \<and> canCloseOrEnqueue (ctl st) \<and> canCloseOrEnqueue (ctl st')
     \<and> queue (ctl st') = queue (ctl st) @ [x]
     \<and> st' = st\<lparr>ctl := (ctl st)\<lparr>queue := queue (ctl st) @ [x]\<rparr>, enqueued := enqueued st @ [x]\<rparr>"
  by (auto simp: do_enqueue_def controller_enqueue_def canCloseOrEnqueue_def split: if_splits)

lemma do_enqueue_Inl: "do_enqueue st x = Inl (e, st') \<Longrightarrow> st' = st"
  by (auto simp: do_enqueue_def split: sum.splits)

lemma do_close_Inr:
  "do_close st = Inr st' \<Longrightarrow> enqueued st' = enqueued st \<and> done_flag st' = done_flag st"
  by (auto simp: do_close_def controller_close_def split: if_splits)

lemma do_close_Inl: "do_close st = Inl (e, st') \<Longrightarrow> st' = st"
  by (auto simp: do_close_def split: sum.splits)

lemma emitted_ok_ctl [simp]: "emitted_ok (st\<lparr>ctl := c\<rparr>) = emitted_ok st"
  by (simp add: emitted_ok_def)

lemma emitted_ok_lastActivity [simp]: "emitted_ok (st\<lparr>lastActivity := t\<rparr>) = emitted_ok st"
  by (simp add: emitted_ok_def)

lemma emitted_ok_emptyChunkCount [simp]: "emitted_ok (st\<lparr>emptyChunkCount := n\<rparr>) = emitted_ok st"
  by (simp add: emitted_ok_def)

lemma emitted_ok_chunkCount [simp]: "emitted_ok (st\<lparr>chunkCount := n\<rparr>) = emitted_ok st"
  by (simp add: emitted_ok_def)


lemma finish_stream_ok:
  assumes "emitted_ok st"
  shows "emitted_ok (state_of (finish_stream st now))"
proof (cases "done_flag st")
  case True
  then have "finish_stream st now = do_close st" by (simp add: finish_stream_def)
  then show ?thesis using assms
    by (auto simp: state_of_def do_close_def controller_close_def split: sum.splits)
next
  case False
  show ?thesis
  proof (cases "enqueueFinalChunk st now")
    case (Inl x)
    then obtain e st' where x: "x = (e, st')" by (cases x)
    with Inl have "st' = st" by (auto simp: enqueueFinalChunk_def dest: do_enqueue_Inl)
    with Inl x False assms show ?thesis by (simp add: finish_stream_def state_of_def)
  next
    case (Inr st1)
    then have e: "enqueued st1 = enqueued st @ [final_chunk st now]"
      by (auto simp: enqueueFinalChunk_def dest: do_enqueue_Inr)
    from False assms have c: "list_all is_content_chunk (enqueued st)"
      by (simp add: emitted_ok_def)
    have ok: "emitted_ok (st1\<lparr>done_flag := True\<rparr>)"
      using e c by (simp add: emitted_ok_def is_final_final_chunk)
    have "state_of (do_close s) = s \<or> (\<exists>c. state_of (do_close s) = s\<lparr>ctl := c\<rparr>)" for s
      by (auto simp: state_of_def do_close_def split: sum.splits)
    then have "emitted_ok (state_of (do_close (st1\<lparr>done_flag := True\<rparr>)))"
      using ok by (metis emitted_ok_ctl)
    with Inr False show ?thesis by (simp add: finish_stream_def)
  qed
qed

lemma finish_stream_done:
  "finish_stream st now = Inr st' \<Longrightarrow> done_flag st'"
  by (auto simp: finish_stream_def split: if_splits sum.splits dest!: do_close_Inr)

lemma enqueueChunk_ok:
  assumes "emitted_ok st" "\<not> done_flag st" "text \<noteq> []"
  shows "emitted_ok (state_of (case enqueueChunk st text now of
                                  Inl x \<Rightarrow> Inl x
                                | Inr st3 \<Rightarrow> Inr (st3\<lparr>chunkCount := chunkCount st3 + 1\<rparr>)))"
proof (cases "enqueueChunk st text now")
  case (Inl x)
  then obtain e st' where x: "x = (e, st')" by (cases x)
  with Inl have "st' = st" by (auto simp: enqueueChunk_def dest: do_enqueue_Inl)
  with Inl x assms show ?thesis by (simp add: state_of_def)
next
  case (Inr st3)
  then have "enqueued st3 = enqueued st @ [content_chunk st text now]" "done_flag st3 = done_flag st"
    by (auto simp: enqueueChunk_def dest: do_enqueue_Inr)
  with assms Inr show ?thesis
    by (simp add: state_of_def emitted_ok_def is_content_content_chunk)
qed

lemma pull_try_ok:
  assumes "emitted_ok st" "pull_try env st inp = Some r"
  shows "emitted_ok (state_of r)"
proof (cases "done_flag st")
  case True
  with assms(2) have "r = do_close st" by (simp add: pull_try_def)
  with assms(1) show ?thesis
    by (auto simp: state_of_def do_close_def split: sum.splits)
next
  case nd: False
  show ?thesis
  proof (cases "result inp")
    case (ReadRejected e)
    with assms nd show ?thesis by (auto simp: pull_try_def state_of_def)
  next
    case (ReadResult d val)
    show ?thesis
    proof (cases d)
      case True
      with assms nd ReadResult finish_stream_ok[OF assms(1)] show ?thesis
        by (auto simp: pull_try_def)
    next
      case nodone: False
      show ?thesis
      proof (cases val)
        case None
        with assms nd ReadResult nodone finish_stream_ok[OF assms(1)] show ?thesis
          by (auto simp: pull_try_def state_of_def split: if_splits)
      next
        case (Some v)
        define st1 where "st1 = st\<lparr>lastActivity := t_read inp\<rparr>"
        have ok1: "emitted_ok st1" and nd1: "\<not> done_flag st1"
          using assms(1) nd by (simp_all add: st1_def)
        from assms(2) nd ReadResult nodone Some obtain pr where
          pr: "processChunk env v = Some pr"
          by (auto simp: pull_try_def Let_def split: option.splits)
        show ?thesis
        proof (cases pr)
          case (Inl e)
          with assms(2) nd ReadResult nodone Some pr have "r = Inl (e, st1)"
            by (simp add: pull_try_def Let_def st1_def)
          with ok1 show ?thesis by (simp add: state_of_def)
        next
          case (Inr tx)
          define st2 where "st2 = st1\<lparr>emptyChunkCount := emptyChunkCount st1 + 1\<rparr>"
          define st2' where "st2' = st1\<lparr>emptyChunkCount := 0\<rparr>"
          have ok2: "emitted_ok st2" "emitted_ok st2'" "\<not> done_flag st2'"
            using ok1 nd1 by (simp_all add: st2_def st2'_def)
          from assms(2) nd ReadResult nodone Some pr Inr
          consider "r = finish_stream st1 (t_emit inp)"
            | "r = finish_stream st2 (t_emit inp)"
            | "r = Inr st2"
            | "tx \<noteq> []" "r = (case enqueueChunk st2' tx (t_emit inp) of
                                   Inl x \<Rightarrow> Inl x
                                 | Inr st3 \<Rightarrow> Inr (st3\<lparr>chunkCount := chunkCount st3 + 1\<rparr>))"
            by (auto simp: pull_try_def Let_def st1_def st2_def st2'_def split: if_splits)
          then show ?thesis
          proof cases
            case 1
            then show ?thesis using finish_stream_ok[OF ok1] by simp
          next
            case 2
            then show ?thesis using finish_stream_ok[OF ok2(1)] by simp
          next
            case 3
            then show ?thesis using ok2 by (simp add: state_of_def)
          next
            case 4
            then show ?thesis using enqueueChunk_ok[OF ok2(2) ok2(3)] by simp
          qed
        qed
      qed
    qed
  qed
qed

lemma pull_ok:
  assumes "emitted_ok st" "pull env st inp = Some st'"
  shows "emitted_ok st'"
proof -
  from assms(2) obtain r where r: "pull_try env st inp = Some r"
    and s: "st' = (case r of Inr s \<Rightarrow> s | Inl (e, s) \<Rightarrow> s\<lparr>ctl := controller_error e (ctl s)\<rparr>)"
    by (auto simp: pull_def)
  from pull_try_ok[OF assms(1) r] s show ?thesis
    by (auto simp: state_of_def split: sum.splits)
qed

lemma pull_try_returns: "\<exists>r. pull_try env st inp = Some r"
proof -
  have nn: "processChunk env v \<noteq> None" for v
    using processChunk_returns[of env v] by auto
  show ?thesis
    by (auto simp: pull_try_def Let_def nn split: read_result.splits option.splits sum.splits)
qed

lemma pull_returns: "\<exists>st'. pull env st inp = Some st'"
  using pull_try_returns[of env st inp] by (auto simp: pull_def)

lemma consumer_read_ok:
  "consumer_read st = (st', out) \<Longrightarrow> emitted_ok st' = emitted_ok st"
  by (auto simp: consumer_read_def split: stream_status.splits list.splits)

lemma run_ok:
  "emitted_ok st \<Longrightarrow> \<exists>st' outs. run env st acts = Some (st', outs) \<and> emitted_ok st'"
proof (induction acts arbitrary: st)
  case Nil
  then show ?case by simp
next
  case (Cons a acts)
  show ?case
  proof (cases a)
    case (Pull inp)
    show ?thesis
    proof (cases "canCloseOrEnqueue (ctl st)")
      case True
      from pull_returns obtain st1 where p: "pull env st inp = Some st1" by blast
      from pull_ok[OF Cons.prems p] have "emitted_ok st1" .
      from Cons.IH[OF this] True p Pull show ?thesis by simp
    next
      case False
      with Cons.IH[OF Cons.prems] Pull show ?thesis by simp
    qed
  next
    case Read
    obtain st1 out where c: "consumer_read st = (st1, out)" by (cases "consumer_read st")
    with consumer_read_ok Cons.prems have "emitted_ok st1" by blast
    from Cons.IH[OF this] obtain st' outs where "run env st1 acts = Some (st', outs)" "emitted_ok st'"
      by blast
    with c Read show ?thesis by simp
  qed
qed

lemma new_CursorStream_ok: "emitted_ok (new_CursorStream rid m now)"
  by (simp add: emitted_ok_def new_CursorStream_def)

lemma pull_when_done:
  assumes "done_flag st"
  shows "\<exists>st'. pull env st inp = Some st' \<and> done_flag st' \<and> enqueued st' = enqueued st"
  using assms
  by (auto simp: pull_def pull_try_def do_close_def controller_close_def split: sum.splits)


lemma str_includes_sublist: "str_includes s m \<Longrightarrow> sublist m s"
  by (induction s) (auto simp: sublist_Cons_right)

lemma str_includes_set: "str_includes s m \<Longrightarrow> set m \<subseteq> set s"
  by (rule set_mono_sublist[OF str_includes_sublist])

lemma take_replicate_le: "k \<le> n \<Longrightarrow> take k (replicate n c) = replicate k c"
  by (simp add: min_def)

lemma take_replicate_more: "take n (ys @ replicate (Suc n) c) = take n (ys @ replicate n c)"
proof -
  have "take (n - length ys) (replicate (Suc n) c) = replicate (n - length ys) c"
    by (rule take_replicate_le) simp
  moreover have "take (n - length ys) (replicate n c) = replicate (n - length ys) c"
    by (rule take_replicate_le) simp
  ultimately show ?thesis by (simp only: take_append)
qed

lemma trim_braces_no_error:
  assumes "trim text = js ''{}''"
  shows \<open>\<not> str_includes text (js ''{"error"'')\<close>
proof
  assume \<open>str_includes text (js ''{"error"'')\<close>
  then have \<open>set (js ''{"error"'') \<subseteq> set text\<close> by (rule str_includes_set)
  then have "0x22 \<in> set text" by (simp add: js_def)
  moreover have "\<not> isWhiteSpace 0x22" by (simp add: isWhiteSpace_def)
  ultimately have "0x22 \<in> set (trim text)" by (rule in_set_trim)
  with assms show False by (simp add: js_def)
qed

lemma end_payload:
  assumes "trim (utf8_decode payload) = js ''{}''"
  shows "payload \<noteq> []" and "\<not> gzip_magic payload"
proof -
  show "payload \<noteq> []" using assms by (auto simp: js_def)
  show "\<not> gzip_magic payload"
  proof
    assume "gzip_magic payload"
    then obtain r where "payload = 0x1F # 0x8B # r"
      by (auto simp: gzip_magic_def split: list.splits)
    then have "0x1F \<in> set (utf8_decode payload)" by simp
    moreover have "\<not> isWhiteSpace 0x1F" by (simp add: isWhiteSpace_def)
    ultimately have "0x1F \<in> set (trim (utf8_decode payload))" by (rule in_set_trim)
    with assms show False by (simp add: js_def)
  qed
qed

lemma processChunk_end_marker:
  assumes "trim (utf8_decode payload) = js ''{}''"
  shows "processChunk env (0x02 # 0x00 # 0x00 # x # y # payload) = Some (Inr [])"
proof -
  have "throw_if_error env (utf8_decode payload) = Inr ()"
    using trim_braces_no_error[OF assms] by (simp add: throw_if_error_def)
  moreover have "cleanResponseText (utf8_decode payload) = []"
    using assms by (simp add: cleanResponseText_def)
  ultimately show ?thesis
    using processChunk_headered_text[of "0x02" payload env x y] end_payload[OF assms]
    by simp
qed

lemma pull_end_marker:
  assumes "\<not> done_flag st" "canCloseOrEnqueue (ctl st)"
    and "trim (utf8_decode payload) = js ''{}''"
    and "result inp = ReadResult False (Some (0x02 # 0x00 # 0x00 # x # y # payload))"
  shows "pull env st inp =
         Some (st\<lparr>done_flag := True, lastActivity := t_read inp,
                  ctl := \<lparr>queue = queue (ctl st) @ [final_chunk st (t_emit inp)],
                          closeRequested = True, status = Readable\<rparr>,
                  enqueued := enqueued st @ [final_chunk st (t_emit inp)]\<rparr>)"
proof -
  have em: "end_marker (0x02 # 0x00 # 0x00 # x # y # payload)"
    using assms(3) by (simp add: end_marker_def)
  have c: "closeRequested (ctl st) = False" "status (ctl st) = Readable"
    using assms(2) by (simp_all add: canCloseOrEnqueue_def)
  have "pull_try env st inp = Some (finish_stream (st\<lparr>lastActivity := t_read inp\<rparr>) (t_emit inp))"
    using assms(1,4) em processChunk_end_marker[OF assms(3)]
    by (simp add: pull_try_def Let_def)
  moreover have "finish_stream (st\<lparr>lastActivity := t_read inp\<rparr>) (t_emit inp)
      = Inr (st\<lparr>done_flag := True, lastActivity := t_read inp,
                  ctl := \<lparr>queue = queue (ctl st) @ [final_chunk st (t_emit inp)],
                          closeRequested = True, status = Readable\<rparr>,
                  enqueued := enqueued st @ [final_chunk st (t_emit inp)]\<rparr>)"
    using assms(1) c
    by (simp add: finish_stream_def enqueueFinalChunk_def do_enqueue_def controller_enqueue_def
        do_close_def controller_close_def canCloseOrEnqueue_def final_chunk_def)
  ultimately show ?thesis by (simp add: pull_def)
qed

lemma run_closing:
  assumes "closeRequested (ctl st)"
    and "status (ctl st) = Readable \<and> queue (ctl st) \<noteq> [] \<or> status (ctl st) = Closed \<and> queue (ctl st) = []"
  shows "\<exists>st'. run env st acts =
           Some (st', take (count_reads acts)
                        (map Got (queue (ctl st)) @ replicate (count_reads acts) StreamClosed))
         \<and> enqueued st' = enqueued st \<and> done_flag st' = done_flag st"
  using assms
proof (induction acts arbitrary: st)
  case Nil
  then show ?case by simp
next
  case (Cons a acts)
  show ?case
  proof (cases a)
    case (Pull inp)
    from Cons.prems(1) have "\<not> canCloseOrEnqueue (ctl st)" by (simp add: canCloseOrEnqueue_def)
    with Cons.IH[OF Cons.prems] Pull show ?thesis by simp
  next
    case Read
    from Cons.prems(2) show ?thesis
    proof
      assume cl: "status (ctl st) = Closed \<and> queue (ctl st) = []"
      then have cr: "consumer_read st = (st, StreamClosed)" by (simp add: consumer_read_def)
      from Cons.IH[OF Cons.prems] cl cr Read show ?thesis by auto
    next
      assume rd: "status (ctl st) = Readable \<and> queue (ctl st) \<noteq> []"
      then obtain x rest where q: "queue (ctl st) = x # rest" by (cases "queue (ctl st)") auto
      define st1 where "st1 = st\<lparr>ctl := (ctl st)\<lparr>queue := rest,
                     status := (if rest = [] then Closed else Readable)\<rparr>\<rparr>"
      have cr: "consumer_read st = (st1, Got x)"
        using rd q Cons.prems(1) by (simp add: consumer_read_def st1_def)
      have p1: "closeRequested (ctl st1)" using Cons.prems(1) by (simp add: st1_def)
      have p2: "status (ctl st1) = Readable \<and> queue (ctl st1) \<noteq> [] \<or> status (ctl st1) = Closed \<and> queue (ctl st1) = []"
        by (simp add: st1_def)
      have q1: "queue (ctl st1) = rest" "enqueued st1 = enqueued st" "done_flag st1 = done_flag st"
        by (simp_all add: st1_def)
      from Cons.IH[OF p1 p2] obtain st' where
        "run env st1 acts = Some (st', take (count_reads acts)
                        (map Got rest @ replicate (count_reads acts) StreamClosed))"
        "enqueued st' = enqueued st" "done_flag st' = done_flag st"
        unfolding q1 by blast
      with cr Read q show ?thesis by (simp add: take_replicate_more del: replicate_Suc take_append)
    qed
  qed
qed

lemma filter_final_content:
  "list_all is_content_chunk xs \<Longrightarrow> filter is_final_chunk xs = []"
  by (induction xs) (auto dest: final_not_content)

lemma emitted_ok_shape:
  assumes "emitted_ok st"
  shows "\<forall>x \<in> set (enqueued st). is_content_chunk x \<or> is_final_chunk x"
    and "length (filter is_final_chunk (enqueued st)) \<le> 1"
    and "\<forall>i < length (enqueued st). is_final_chunk (enqueued st ! i) \<longrightarrow> i = length (enqueued st) - 1"
proof -
  obtain cs fs where e: "enqueued st = cs @ fs" and c: "list_all is_content_chunk cs"
    and f: "fs = [] \<or> (\<exists>x. fs = [x] \<and> is_final_chunk x)"
  proof (cases "done_flag st")
    case True
    with assms have ne: "enqueued st \<noteq> []"
      and "list_all is_content_chunk (butlast (enqueued st))"
      and "is_final_chunk (last (enqueued st))"
      by (simp_all add: emitted_ok_def)
    moreover from ne have "enqueued st = butlast (enqueued st) @ [last (enqueued st)]" by simp
    ultimately show ?thesis using that by blast
  next
    case False
    with assms have "list_all is_content_chunk (enqueued st)" by (simp add: emitted_ok_def)
    then show ?thesis using that[of "enqueued st" "[]"] by simp
  qed
  show "\<forall>x \<in> set (enqueued st). is_content_chunk x \<or> is_final_chunk x"
    using e c f by (auto simp: list_all_iff)
  show "length (filter is_final_chunk (enqueued st)) \<le> 1"
    using e f filter_final_content[OF c] by auto
  show "\<forall>i < length (enqueued st). is_final_chunk (enqueued st ! i) \<longrightarrow> i = length (enqueued st) - 1"
  proof (intro allI impI)
    fix i
    assume i: "i < length (enqueued st)" and fi: "is_final_chunk (enqueued st ! i)"
    show "i = length (enqueued st) - 1"
    proof (cases "i < length cs")
      case True
      then have "enqueued st ! i = cs ! i" by (simp add: e nth_append)
      moreover from True c have "is_content_chunk (cs ! i)" by (simp add: list_all_length)
      ultimately show ?thesis using fi final_not_content by auto
    next
      case False
      with i e f show ?thesis by auto
    qed
  qed
qed


subsection \<open>Claims on the stream\<close>

text \<open>
  C3 as stated fails for the header \<open>01 00 00\<close>: the source looks for the end marker only
  in a frame that starts \<open>02 00 00\<close>. On a new stream the frame \<open>01 00 00 00 02 {}\<close> puts
  out no chunk and leaves the stream open and not done.
\<close>

theorem end_marker_header_01_counterexample:
  "map_option (\<lambda>s. (enqueued s, done_flag s, queue (ctl s), closeRequested (ctl s), status (ctl s)))
     (pull sample_env (new_CursorStream (js ''chatcmpl-1'') (js ''gpt-4o'') 0)
        \<lparr>result = ReadResult False (Some ([0x01, 0x00, 0x00, 0x00, 0x02] @ ascii ''{}'')),
         t_read = 1, t_emit = 1\<rparr>)
   = Some ([], False, [], False, Readable)"
  by code_simp

text \<open>
  C3, amended. On a stream that is not done and can still enqueue, a frame that starts
  \<open>02 00 00\<close>, has two more header bytes, and whose payload as UTF-8, trimmed, is \<open>{}\<close>
  makes \<open>pull\<close> put out exactly one chunk, the final one (no content, \<open>finish_reason\<close>
  \<open>stop\<close>), set \<open>done\<close> and close the stream. In every run after that nothing more is put
  out, and the reads give the chunks still queued, the final chunk last, and then
  \<open>StreamClosed\<close> every time.
\<close>

theorem end_marker_closes_stream:
  "\<forall>env st x y payload inp.
     \<not> done_flag st \<and> canCloseOrEnqueue (ctl st)
     \<and> trim (utf8_decode payload) = js ''{}''
     \<and> result inp = ReadResult False (Some (0x02 # 0x00 # 0x00 # x # y # payload))
     \<longrightarrow>
       (\<exists>st'. pull env st inp = Some st' \<and> done_flag st'
          \<and> enqueued st' = enqueued st @ [final_chunk st (t_emit inp)]
          \<and> is_final_chunk (final_chunk st (t_emit inp))
          \<and> (\<forall>acts. \<exists>st''.
                 run env st' acts
                 = Some (st'', take (count_reads acts)
                                 (map Got (queue (ctl st) @ [final_chunk st (t_emit inp)])
                                  @ replicate (count_reads acts) StreamClosed))
                 \<and> enqueued st'' = enqueued st' \<and> done_flag st''))"
proof (intro allI impI)
  fix env :: js_env and st :: cursor_stream and x y :: u8 and payload :: "u8 list"
    and inp :: pull_input
  assume h: "\<not> done_flag st \<and> canCloseOrEnqueue (ctl st)
     \<and> trim (utf8_decode payload) = js ''{}''
     \<and> result inp = ReadResult False (Some (0x02 # 0x00 # 0x00 # x # y # payload))"
  define f where "f = final_chunk st (t_emit inp)"
  define st' where "st' = st\<lparr>done_flag := True, lastActivity := t_read inp,
                  ctl := \<lparr>queue = queue (ctl st) @ [f],
                          closeRequested = True, status = Readable\<rparr>,
                  enqueued := enqueued st @ [f]\<rparr>"
  from h have p: "pull env st inp = Some st'"
    unfolding st'_def f_def by (intro pull_end_marker) auto
  have c: "closeRequested (ctl st')" by (simp add: st'_def)
  have q: "status (ctl st') = Readable \<and> queue (ctl st') \<noteq> []
           \<or> status (ctl st') = Closed \<and> queue (ctl st') = []"
    by (simp add: st'_def)
  have r: "\<exists>st''. run env st' acts
                 = Some (st'', take (count_reads acts)
                                 (map Got (queue (ctl st) @ [f])
                                  @ replicate (count_reads acts) StreamClosed))
                 \<and> enqueued st'' = enqueued st' \<and> done_flag st''" for acts
    using run_closing[OF c q, of env acts] by (simp add: st'_def)
  have "done_flag st'" "enqueued st' = enqueued st @ [f]" by (simp_all add: st'_def)
  with p r is_final_final_chunk[of st "t_emit inp"]
  show "\<exists>st'. pull env st inp = Some st' \<and> done_flag st'
          \<and> enqueued st' = enqueued st @ [final_chunk st (t_emit inp)]
          \<and> is_final_chunk (final_chunk st (t_emit inp))
          \<and> (\<forall>acts. \<exists>st''.
                 run env st' acts
                 = Some (st'', take (count_reads acts)
                                 (map Got (queue (ctl st) @ [final_chunk st (t_emit inp)])
                                  @ replicate (count_reads acts) StreamClosed))
                 \<and> enqueued st'' = enqueued st' \<and> done_flag st'')"
    unfolding f_def by blast
qed

theorem end_marker_closes_stream_witness:
  "\<not> done_flag (new_CursorStream (js ''chatcmpl-1'') (js ''gpt-4o'') 0)
   \<and> canCloseOrEnqueue (ctl (new_CursorStream (js ''chatcmpl-1'') (js ''gpt-4o'') 0))
   \<and> trim (utf8_decode (ascii ''{}'')) = js ''{}''
   \<and> (\<exists>st'. pull sample_env (new_CursorStream (js ''chatcmpl-1'') (js ''gpt-4o'') 0)
               \<lparr>result = ReadResult False (Some (0x02 # 0x00 # 0x00 # 0x00 # 0x02 # ascii ''{}'')),
                t_read = 7, t_emit = 5000\<rparr> = Some st'
          \<and> done_flag st'
          \<and> enqueued st' = [\<lparr>chunk_id = js ''chatcmpl-1'', created = 5, chunk_model = js ''gpt-4o'',
                              delta_content = None, finish_reason = Some (js ''stop'')\<rparr>]
          \<and> (\<exists>st''. run sample_env st'
                        [Read, Pull \<lparr>result = ReadResult False (Some (ascii ''more'')),
                                     t_read = 8, t_emit = 8\<rparr>, Read, Read]
                 = Some (st'',
                     [Got \<lparr>chunk_id = js ''chatcmpl-1'', created = 5, chunk_model = js ''gpt-4o'',
                           delta_content = None, finish_reason = Some (js ''stop'')\<rparr>,
                      StreamClosed, StreamClosed])
                 \<and> enqueued st'' = enqueued st'))"
proof -
  let ?st = "new_CursorStream (js ''chatcmpl-1'') (js ''gpt-4o'') 0"
  let ?inp = "\<lparr>result = ReadResult False (Some (0x02 # 0x00 # 0x00 # 0x00 # 0x02 # ascii ''{}'')),
                t_read = 7, t_emit = 5000\<rparr>"
  let ?acts = "[Read, Pull \<lparr>result = ReadResult False (Some (ascii ''more'')),
                                     t_read = 8, t_emit = 8\<rparr>, Read, Read]"
  let ?f = "\<lparr>chunk_id = js ''chatcmpl-1'', created = 5, chunk_model = js ''gpt-4o'',
                              delta_content = None, finish_reason = Some (js ''stop'')\<rparr>"
  have h1: "\<not> done_flag ?st" by (simp add: new_CursorStream_def)
  have h2: "canCloseOrEnqueue (ctl ?st)" by (simp add: new_CursorStream_def canCloseOrEnqueue_def)
  have h3: "trim (utf8_decode (ascii ''{}'')) = js ''{}''" by code_simp
  have h4: "result ?inp = ReadResult False (Some (0x02 # 0x00 # 0x00 # 0x00 # 0x02 # ascii ''{}''))"
    by simp
  have f: "final_chunk ?st (t_emit ?inp) = ?f"
    by (simp add: final_chunk_def new_CursorStream_def)
  have q: "queue (ctl ?st) = []" by (simp add: new_CursorStream_def)
  have e: "enqueued ?st = []" by (simp add: new_CursorStream_def)
  have n: "count_reads ?acts = 3" by simp
  from end_marker_closes_stream[rule_format, of ?st "ascii ''{}''" ?inp "0x00" "0x02" sample_env]
    h1 h2 h3 h4
  obtain st' where p: "pull sample_env ?st ?inp = Some st'" and d: "done_flag st'"
    and en: "enqueued st' = enqueued ?st @ [final_chunk ?st (t_emit ?inp)]"
    and r: "\<forall>acts. \<exists>st''.
                 run sample_env st' acts
                 = Some (st'', take (count_reads acts)
                                 (map Got (queue (ctl ?st) @ [final_chunk ?st (t_emit ?inp)])
                                  @ replicate (count_reads acts) StreamClosed))
                 \<and> enqueued st'' = enqueued st' \<and> done_flag st''"
    by blast
  from r obtain st'' where
    "run sample_env st' ?acts
       = Some (st'', take (count_reads ?acts)
                       (map Got (queue (ctl ?st) @ [final_chunk ?st (t_emit ?inp)])
                        @ replicate (count_reads ?acts) StreamClosed))"
    and e2: "enqueued st'' = enqueued st'"
    by blast
  then have r2: "run sample_env st' ?acts = Some (st'', [Got ?f, StreamClosed, StreamClosed])"
    unfolding n f q by (simp add: numeral_3_eq_3)
  from en have en2: "enqueued st' = [?f]" unfolding f e by simp
  from h1 h2 h3 p d en2 r2 e2 show ?thesis by blast
qed

text \<open>
  C10. In every run of a new stream, \<open>pull\<close> and the reads return, and what has been put
  out is a list of content chunks (non-empty \<open>delta.content\<close>, no \<open>finish_reason\<close>),
  followed by one final chunk (no content, \<open>finish_reason\<close> \<open>stop\<close>) exactly when \<open>done\<close> is
  set. So the final chunk is put out at most once and nothing follows it. Every single
  \<open>pull\<close> keeps this, from any state; and a \<open>pull\<close> on a stream that is done puts out
  nothing and leaves it done.
\<close>

theorem stream_chunk_invariant:
  "(\<forall>env rid m now acts.
      \<exists>st outs. run env (new_CursorStream rid m now) acts = Some (st, outs) \<and> emitted_ok st)
   \<and> (\<forall>env st inp. emitted_ok st \<longrightarrow> (\<exists>st'. pull env st inp = Some st' \<and> emitted_ok st'))
   \<and> (\<forall>env st inp. done_flag st \<longrightarrow>
         (\<exists>st'. pull env st inp = Some st' \<and> done_flag st' \<and> enqueued st' = enqueued st))
   \<and> (\<forall>st. emitted_ok st \<longrightarrow>
         (\<forall>x \<in> set (enqueued st). is_content_chunk x \<or> is_final_chunk x)
         \<and> length (filter is_final_chunk (enqueued st)) \<le> 1
         \<and> (\<forall>i < length (enqueued st). is_final_chunk (enqueued st ! i)
                \<longrightarrow> i = length (enqueued st) - 1))"
proof (intro conjI allI impI)
  fix env rid m now acts
  show "\<exists>st outs. run env (new_CursorStream rid m now) acts = Some (st, outs) \<and> emitted_ok st"
    using run_ok[OF new_CursorStream_ok] by blast
next
  fix env :: js_env and st :: cursor_stream and inp :: pull_input
  assume ok: "emitted_ok st"
  from pull_returns obtain st' where p: "pull env st inp = Some st'" by blast
  with pull_ok[OF ok p] show "\<exists>st'. pull env st inp = Some st' \<and> emitted_ok st'" by blast
next
  fix env :: js_env and st :: cursor_stream and inp :: pull_input
  assume "done_flag st"
  then show "\<exists>st'. pull env st inp = Some st' \<and> done_flag st' \<and> enqueued st' = enqueued st"
    by (rule pull_when_done)
next
  fix st :: cursor_stream
  assume ok: "emitted_ok st"
  show "\<forall>x \<in> set (enqueued st). is_content_chunk x \<or> is_final_chunk x"
    using ok emitted_ok_shape by blast
  show "length (filter is_final_chunk (enqueued st)) \<le> 1"
    using ok emitted_ok_shape by blast
next
  fix st :: cursor_stream and i
  assume "emitted_ok st" "i < length (enqueued st)" "is_final_chunk (enqueued st ! i)"
  then show "i = length (enqueued st) - 1"
    using emitted_ok_shape by blast
qed

theorem stream_chunk_invariant_witness:
  "run sample_env sample_stream [Pull sample_frame_input, Pull sample_end_input]
     = Some (sample_finished, [])
   \<and> emitted_ok sample_finished
   \<and> done_flag sample_finished
   \<and> (\<exists>st'. pull sample_env sample_finished sample_frame_input = Some st'
          \<and> emitted_ok st' \<and> done_flag st' \<and> enqueued st' = enqueued sample_finished)
   \<and> list_all (\<lambda>x. is_content_chunk x \<or> is_final_chunk x) (enqueued sample_finished)
   \<and> length (filter is_final_chunk (enqueued sample_finished)) \<le> 1
   \<and> 1 < length (enqueued sample_finished)
   \<and> is_final_chunk (enqueued sample_finished ! 1)
   \<and> (1 :: nat) = length (enqueued sample_finished) - 1"
proof -
  note inv = stream_chunk_invariant
  have r: "run sample_env sample_stream [Pull sample_frame_input, Pull sample_end_input]
           = Some (sample_finished, [])"
    by code_simp
  from inv have "\<exists>st outs. run sample_env (new_CursorStream (js ''chatcmpl-1'') (js ''gpt-4o'') 0)
                   [Pull sample_frame_input, Pull sample_end_input] = Some (st, outs)
                 \<and> emitted_ok st"
    by blast
  with r have ok: "emitted_ok sample_finished" by (auto simp: sample_stream_def)
  have d: "done_flag sample_finished" by (simp add: sample_finished_def)
  from inv ok obtain st1 where p1: "pull sample_env sample_finished sample_frame_input = Some st1"
    and ok1: "emitted_ok st1"
    by blast
  from inv d obtain st2 where p2: "pull sample_env sample_finished sample_frame_input = Some st2"
    and d2: "done_flag st2" "enqueued st2 = enqueued sample_finished"
    by blast
  from p1 p2 have "st1 = st2" by simp
  with p1 ok1 d2 have p: "\<exists>st'. pull sample_env sample_finished sample_frame_input = Some st'
          \<and> emitted_ok st' \<and> done_flag st' \<and> enqueued st' = enqueued sample_finished"
    by blast
  from inv ok have s0: "\<forall>x \<in> set (enqueued sample_finished). is_content_chunk x \<or> is_final_chunk x"
    and s2: "length (filter is_final_chunk (enqueued sample_finished)) \<le> 1"
    and s3: "\<forall>i < length (enqueued sample_finished). is_final_chunk (enqueued sample_finished ! i)
                \<longrightarrow> i = length (enqueued sample_finished) - 1"
    by blast+
  from s0 have s1: "list_all (\<lambda>x. is_content_chunk x \<or> is_final_chunk x) (enqueued sample_finished)"
    by (simp add: list_all_iff)
  have l: "1 < length (enqueued sample_finished)" by (simp add: sample_finished_def)
  have f: "is_final_chunk (enqueued sample_finished ! 1)"
    by (simp add: sample_finished_def sample_final_chunk_def is_final_chunk_def)
  from s3 l f have i: "(1 :: nat) = length (enqueued sample_finished) - 1" by blast
  from r ok d p s1 s2 l f i show ?thesis by blast
qed


section \<open>Requests: lemmas\<close>

subsection \<open>The length header of createHexMessage\<close>

lemma mod_256_div_16: "(m::nat) mod 256 div 16 = m div 16 mod 16"
proof -
  have "m mod 256 = 16 * (m div 16 mod 16) + m mod 16"
    using mod_mult2_eq[of m 16 16] by simp
  then show ?thesis by simp
qed

lemma mod_256_mod_16: "(m::nat) mod 256 mod 16 = m mod 16"
  by (simp add: mod_mod_cancel)

lemma digits16_2: "digits16 (Suc (Suc 0)) m = [hex_digit (m div 16 mod 16), hex_digit (m mod 16)]"
  by simp

lemma toHex_byte: "toHex [of_nat m :: u8] = digits16 (Suc (Suc 0)) m"
proof -
  have u: "unat (of_nat m :: u8) = m mod 256" by (simp add: unat_of_nat)
  show ?thesis unfolding digits16_2 by (simp add: u mod_256_div_16 mod_256_mod_16)
qed

lemma digits16_add2: "digits16 (Suc (Suc k)) n = digits16 k (n div 256) @ digits16 (Suc (Suc 0)) n"
proof -
  have "n div 16 div 16 = n div 256" by (simp add: div_mult2_eq[symmetric])
  then show ?thesis by simp
qed


lemma digits16_zero: "digits16 k 0 = replicate k 0x30"
  by (induction k) (simp_all add: hex_digit_def replicate_append_same)

lemma div16_less: "(n::nat) < 16 ^ Suc k \<Longrightarrow> n div 16 < 16 ^ k"
  by (simp add: less_mult_imp_div_less mult.commute)

lemma length_toString16: "0 < k \<Longrightarrow> n < 16 ^ k \<Longrightarrow> length (toString16 n) \<le> k"
proof (induction k arbitrary: n)
  case 0
  then show ?case by simp
next
  case (Suc k)
  show ?case
  proof (cases "n < 16")
    case True
    then show ?thesis by (subst toString16.simps) simp
  next
    case False
    with Suc.prems have k: "0 < k" by (cases k) auto
    from Suc.prems have "n div 16 < 16 ^ k" by (intro div16_less)
    from Suc.IH[OF k this] False show ?thesis by (subst toString16.simps) simp
  qed
qed

lemma padStart_snoc:
  "length xs \<le> k \<Longrightarrow> padStart (Suc k) c (xs @ [d]) = padStart k c xs @ [d]"
  by (simp add: padStart_def Suc_diff_le)

lemma padStart_toString16:
  "0 < k \<Longrightarrow> n < 16 ^ k \<Longrightarrow> padStart k 0x30 (toString16 n) = digits16 k n"
proof (induction k arbitrary: n)
  case 0
  then show ?case by simp
next
  case (Suc k)
  show ?case
  proof (cases "n < 16")
    case True
    then have "toString16 n = [hex_digit n]" by (subst toString16.simps) simp
    with True show ?thesis by (simp add: padStart_def digits16_zero)
  next
    case False
    with Suc.prems have k: "0 < k" by (cases k) auto
    from Suc.prems have lt: "n div 16 < 16 ^ k" by (intro div16_less)
    from False have "toString16 n = toString16 (n div 16) @ [hex_digit (n mod 16)]"
      by (subst toString16.simps) simp
    with padStart_snoc[OF length_toString16[OF k lt]] Suc.IH[OF k lt]
    show ?thesis by simp
  qed
qed


lemma ten_Suc: "(10::nat) = Suc (Suc (Suc (Suc (Suc (Suc (Suc (Suc (Suc (Suc 0)))))))))"
  by simp

lemma digits16_10:
  "digits16 10 n = digits16 (Suc (Suc 0)) (n div 256 div 256 div 256 div 256)
        @ digits16 (Suc (Suc 0)) (n div 256 div 256 div 256)
        @ digits16 (Suc (Suc 0)) (n div 256 div 256) @ digits16 (Suc (Suc 0)) (n div 256)
        @ digits16 (Suc (Suc 0)) n"
  unfolding ten_Suc by (simp add: div_mult2_eq[symmetric])

lemma toHex_be5: "toHex (be5 n) = digits16 10 n"
proof -
  have d: "n div 2 ^ 16 = n div 256 div 256" "n div 2 ^ 24 = n div 256 div 256 div 256"
    "n div 2 ^ 32 = n div 256 div 256 div 256 div 256" "n div 2 ^ 8 = n div 256"
    by (simp_all add: div_mult2_eq[symmetric])
  have "toHex (be5 n) = toHex [of_nat (n div 2 ^ 32)] @ toHex [of_nat (n div 2 ^ 24)]
        @ toHex [of_nat (n div 2 ^ 16)] @ toHex [of_nat (n div 2 ^ 8)] @ toHex [of_nat n]"
    unfolding be5_def by simp
  then show ?thesis by (simp only: toHex_byte digits16_10 d)
qed

lemma hex_value_upper:
  "n < 16 \<Longrightarrow>
     hex_value (if 0x61 \<le> hex_digit n \<and> hex_digit n \<le> 0x7A then hex_digit n - 0x20 else hex_digit n)
     = Some n"
proof -
  assume "n < 16"
  then consider "n = 0" | "n = 1" | "n = 2" | "n = 3" | "n = 4" | "n = 5" | "n = 6" | "n = 7"
    | "n = 8" | "n = 9" | "n = 10" | "n = 11" | "n = 12" | "n = 13" | "n = 14" | "n = 15"
    by atomize_elim arith
  then show ?thesis
    by cases (simp_all add: hex_value_def hex_digit_def)
qed

lemma fromHex_toUpperCase_toHex: "fromHex (toUpperCase (toHex bs)) = bs"
proof (induction bs)
  case Nil
  then show ?case by (simp add: toUpperCase_def)
next
  case (Cons b bs)
  have "unat b < 256" using unsigned_less[of b] by simp
  then have hi: "unat b div 16 < 16" by simp
  have lo: "unat b mod 16 < 16" by simp
  have v: "(of_nat (16 * (unat b div 16) + unat b mod 16) :: u8) = b" by simp
  from Cons.IH have ih: "fromHex (map (\<lambda>c. if 0x61 \<le> c \<and> c \<le> 0x7A then c - 0x20 else c) (toHex bs)) = bs"
    by (simp add: toUpperCase_def)
  show ?case
    unfolding toUpperCase_def
    by (simp add: hex_value_upper[OF hi] hex_value_upper[OF lo] ih v del: of_nat_add of_nat_mult)
qed

lemma createHexMessage_be5:
  assumes "length (encodeChatMessage (convertToCursorFormat uuid msgs modelName)) < 2 ^ 40"
  shows "createHexMessage uuid msgs modelName
         = be5 (length (encodeChatMessage (convertToCursorFormat uuid msgs modelName)))
           @ encodeChatMessage (convertToCursorFormat uuid msgs modelName)"
proof -
  let ?b = "encodeChatMessage (convertToCursorFormat uuid msgs modelName)"
  have "(2::nat) ^ 40 = 16 ^ 10" by simp
  with assms have "length ?b < 16 ^ 10" by simp
  then have "padStart 10 0x30 (toString16 (length ?b)) = toHex (be5 (length ?b))"
    by (simp only: toHex_be5 padStart_toString16)
  then have "padStart 10 0x30 (toString16 (length ?b)) @ toHex ?b = toHex (be5 (length ?b) @ ?b)"
    by (simp only: toHex_append)
  then show ?thesis
    by (simp only: createHexMessage_def Let_def fromHex_toUpperCase_toHex)
qed

subsection \<open>validateParams\<close>

lemma validate_messages_Inl:
  "\<exists>m\<in>set ms. msg_role m = [] \<or> msg_content m = []
       \<or> msg_role m \<notin> {js ''system'', js ''user'', js ''assistant''}
   \<Longrightarrow> \<exists>text. validate_messages ms = Inl (BadRequestError text)"
  by (induction ms) auto

lemma validate_messages_Inr:
  "\<forall>m\<in>set ms. msg_role m \<noteq> [] \<and> msg_content m \<noteq> []
       \<and> msg_role m \<in> {js ''system'', js ''user'', js ''assistant''}
   \<Longrightarrow> validate_messages ms = Inr ()"
  by (induction ms) auto

section \<open>Claims on the request\<close>

text \<open>
  C7. For every list of messages and model name whose encoded payload is shorter than
  \<open>2 ^ 40\<close> bytes (any longer one has no ten-digit length, and its hexadecimal text is far
  beyond what a string of the platform can hold), the buffer that createHexMessage
  returns is the five-byte big-endian length of the payload followed by the payload:
  its length is five more than the payload's, its first five bytes read as a
  big-endian number give the payload's length, and the rest is the payload.
\<close>

theorem createHexMessage_length_header:
  "\<forall>uuid msgs modelName.
     length (encodeChatMessage (convertToCursorFormat uuid msgs modelName)) < 2 ^ 40 \<longrightarrow>
       createHexMessage uuid msgs modelName
         = be5 (length (encodeChatMessage (convertToCursorFormat uuid msgs modelName)))
           @ encodeChatMessage (convertToCursorFormat uuid msgs modelName)
       \<and> length (createHexMessage uuid msgs modelName)
           = 5 + length (encodeChatMessage (convertToCursorFormat uuid msgs modelName))
       \<and> be_value (take 5 (createHexMessage uuid msgs modelName))
           = length (encodeChatMessage (convertToCursorFormat uuid msgs modelName))
       \<and> drop 5 (createHexMessage uuid msgs modelName)
           = encodeChatMessage (convertToCursorFormat uuid msgs modelName)"
proof (intro allI impI)
  fix uuid :: "nat \<Rightarrow> jsstring" and msgs :: "ChatMessage list" and modelName :: jsstring
  let ?payload = "encodeChatMessage (convertToCursorFormat uuid msgs modelName)"
  let ?out = "createHexMessage uuid msgs modelName"
  assume l: "length ?payload < 2 ^ 40"
  then have e: "?out = be5 (length ?payload) @ ?payload"
    by (rule createHexMessage_be5)
  have n: "length ?out = 5 + length ?payload"
    unfolding e by simp
  have t: "take 5 ?out = be5 (length ?payload)"
    unfolding e by simp
  have v: "be_value (take 5 ?out) = length ?payload"
    unfolding t using l by (rule be_value_be5)
  have d: "drop 5 ?out = ?payload"
    unfolding e by simp
  from e n v d show "?out = be5 (length ?payload) @ ?payload
       \<and> length ?out = 5 + length ?payload
       \<and> be_value (take 5 ?out) = length ?payload
       \<and> drop 5 ?out = ?payload"
    by blast
qed

theorem createHexMessage_length_header_witness:
  "length (encodeChatMessage (convertToCursorFormat sample_uuid sample_messages (js ''gpt-4o''))) = 111
   \<and> take 5 (createHexMessage sample_uuid sample_messages (js ''gpt-4o'')) = [0, 0, 0, 0, 111]
   \<and> length (createHexMessage sample_uuid sample_messages (js ''gpt-4o'')) = 116
   \<and> be_value (take 5 (createHexMessage sample_uuid sample_messages (js ''gpt-4o''))) = 111
   \<and> drop 5 (createHexMessage sample_uuid sample_messages (js ''gpt-4o''))
       = encodeChatMessage (convertToCursorFormat sample_uuid sample_messages (js ''gpt-4o''))"
proof -
  let ?payload = "encodeChatMessage (convertToCursorFormat sample_uuid sample_messages (js ''gpt-4o''))"
  let ?out = "createHexMessage sample_uuid sample_messages (js ''gpt-4o'')"
  have len: "length ?payload = 111" by code_simp
  then have "length ?payload < 2 ^ 40" by simp
  with createHexMessage_length_header
  have r: "?out = be5 (length ?payload) @ ?payload
       \<and> length ?out = 5 + length ?payload
       \<and> be_value (take 5 ?out) = length ?payload
       \<and> drop 5 ?out = ?payload"
    by blast
  have b: "be5 111 = [0, 0, 0, 0, 111]" by (simp add: be5_def)
  from r have "take 5 ?out = be5 (length ?payload)" by simp
  with len b have t: "take 5 ?out = [0, 0, 0, 0, 111]" by simp
  from r len t show ?thesis by simp
qed

text \<open>
  C1. The request for the single message \<open>{role: "user", content: "Hello"}\<close> and the model
  \<open>gpt-4o\<close>, each \<open>uuidv4()\<close> giving \<open>id\<close>. After the five bytes of the length, the payload
  starts with \<open>12 00\<close>: a \<open>messages\<close> entry (field 2) of length zero, written by the line
  \<open>writer.uint32(18).fork().ldelim()\<close>. The entry of the message itself comes after it:
  \<open>12 0D\<close>, then \<open>0A 05 Hello\<close>, \<open>10 01\<close> and \<open>6A 02 id\<close>. Every round of the loop over the
  messages writes such an empty entry first, so the payload of \<open>n\<close> messages holds \<open>2 * n\<close>
  entries of field 2, every other one empty.
\<close>

theorem encodeChatMessage_placeholder_entry:
  "(\<forall>msg. encode_message_entry msg = [0x12, 0x00] @ [0x12] @ write_bytes (encode_UserMessage msg))
   \<and> take 17 (drop 5 (createHexMessage sample_uuid sample_messages (js ''gpt-4o'')))
       = [0x12, 0x00,
          0x12, 0x0D, 0x0A, 0x05, 0x48, 0x65, 0x6C, 0x6C, 0x6F, 0x10, 0x01, 0x6A, 0x02, 0x69, 0x64]
   \<and> take 2 (drop 5 (createHexMessage sample_uuid sample_messages (js ''gpt-4o''))) = [0x12, 0x00]"
proof (intro conjI allI)
  fix msg
  have "writeVarint32 18 = [0x12]" "writeVarint32 0 = [0x00]"
    by (simp_all add: writeVarint32.simps)
  then show "encode_message_entry msg = [0x12, 0x00] @ [0x12] @ write_bytes (encode_UserMessage msg)"
    by (simp add: encode_message_entry_def write_fork_ldelim_def)
next
  show "take 17 (drop 5 (createHexMessage sample_uuid sample_messages (js ''gpt-4o'')))
       = [0x12, 0x00,
          0x12, 0x0D, 0x0A, 0x05, 0x48, 0x65, 0x6C, 0x6C, 0x6F, 0x10, 0x01, 0x6A, 0x02, 0x69, 0x64]"
    by code_simp
next
  show "take 2 (drop 5 (createHexMessage sample_uuid sample_messages (js ''gpt-4o''))) = [0x12, 0x00]"
    by code_simp
qed

text \<open>
  C2. When the list of messages is empty, or a message has an empty role or an empty
  content, or a message's role is not \<open>system\<close>, \<open>user\<close> or \<open>assistant\<close>, or the model is
  the empty string, validateParams throws a BadRequestError, and \<open>create\<close> throws it
  having made no call: neither createHexMessage nor the transport's \<open>post\<close>. In every
  other case validateParams returns, and \<open>create\<close> encodes the request and posts it.
\<close>

theorem create_validation:
  "(\<forall>uuid params.
      p_messages params = []
      \<or> (\<exists>m \<in> set (p_messages params). msg_role m = [] \<or> msg_content m = [])
      \<or> (\<exists>m \<in> set (p_messages params).
            msg_role m \<notin> {js ''system'', js ''user'', js ''assistant''})
      \<or> p_model params = []
      \<longrightarrow> (\<exists>text. validateParams params = Inl (BadRequestError text)
             \<and> create uuid params = (Inl (BadRequestError text), [])))
   \<and> (\<forall>uuid params.
        p_messages params \<noteq> []
        \<and> (\<forall>m \<in> set (p_messages params). msg_role m \<noteq> [] \<and> msg_content m \<noteq> []
              \<and> msg_role m \<in> {js ''system'', js ''user'', js ''assistant''})
        \<and> p_model params \<noteq> []
        \<longrightarrow> validateParams params = Inr ()
            \<and> snd (create uuid params)
                = [Encode (p_messages params) (p_model params),
                   Post (js ''/aiserver.v1.AiService/StreamChat'')
                     (createHexMessage uuid (p_messages params) (p_model params))
                     (p_stream params)])"
proof (rule conjI)
  show "\<forall>uuid params.
      p_messages params = []
      \<or> (\<exists>m \<in> set (p_messages params). msg_role m = [] \<or> msg_content m = [])
      \<or> (\<exists>m \<in> set (p_messages params).
            msg_role m \<notin> {js ''system'', js ''user'', js ''assistant''})
      \<or> p_model params = []
      \<longrightarrow> (\<exists>text. validateParams params = Inl (BadRequestError text)
             \<and> create uuid params = (Inl (BadRequestError text), []))"
  proof (intro allI impI)
    fix uuid :: "nat \<Rightarrow> jsstring" and params :: ChatCompletionCreateParams
    assume bad: "p_messages params = []
        \<or> (\<exists>m \<in> set (p_messages params). msg_role m = [] \<or> msg_content m = [])
        \<or> (\<exists>m \<in> set (p_messages params).
              msg_role m \<notin> {js ''system'', js ''user'', js ''assistant''})
        \<or> p_model params = []"
    have v: "\<exists>text. validateParams params = Inl (BadRequestError text)"
    proof (cases "p_messages params = [] \<or> p_model params = []")
      case True
      then show ?thesis by (auto simp: validateParams_def)
    next
      case False
      with bad have "\<exists>m\<in>set (p_messages params). msg_role m = [] \<or> msg_content m = []
         \<or> msg_role m \<notin> {js ''system'', js ''user'', js ''assistant''}"
        by blast
      from validate_messages_Inl[OF this] False show ?thesis
        by (simp add: validateParams_def)
    qed
    then obtain tx where t: "validateParams params = Inl (BadRequestError tx)" by blast
    then have "create uuid params = (Inl (BadRequestError tx), [])"
      by (simp add: create_def)
    with t show "\<exists>text. validateParams params = Inl (BadRequestError text)
               \<and> create uuid params = (Inl (BadRequestError text), [])"
      by blast
  qed
next
  show "\<forall>uuid params.
        p_messages params \<noteq> []
        \<and> (\<forall>m \<in> set (p_messages params). msg_role m \<noteq> [] \<and> msg_content m \<noteq> []
              \<and> msg_role m \<in> {js ''system'', js ''user'', js ''assistant''})
        \<and> p_model params \<noteq> []
        \<longrightarrow> validateParams params = Inr ()
            \<and> snd (create uuid params)
                = [Encode (p_messages params) (p_model params),
                   Post (js ''/aiserver.v1.AiService/StreamChat'')
                     (createHexMessage uuid (p_messages params) (p_model params))
                     (p_stream params)]"
  proof (intro allI impI)
    fix uuid :: "nat \<Rightarrow> jsstring" and params :: ChatCompletionCreateParams
    assume ok: "p_messages params \<noteq> []
          \<and> (\<forall>m \<in> set (p_messages params). msg_role m \<noteq> [] \<and> msg_content m \<noteq> []
                \<and> msg_role m \<in> {js ''system'', js ''user'', js ''assistant''})
          \<and> p_model params \<noteq> []"
    then have "validate_messages (p_messages params) = Inr ()"
      by (intro validate_messages_Inr) blast
    with ok have v: "validateParams params = Inr ()"
      by (simp add: validateParams_def)
    then have "snd (create uuid params)
                  = [Encode (p_messages params) (p_model params),
                     Post (js ''/aiserver.v1.AiService/StreamChat'')
                       (createHexMessage uuid (p_messages params) (p_model params))
                       (p_stream params)]"
      by (simp add: create_def Let_def)
    with v show "validateParams params = Inr ()
              \<and> snd (create uuid params)
                  = [Encode (p_messages params) (p_model params),
                     Post (js ''/aiserver.v1.AiService/StreamChat'')
                       (createHexMessage uuid (p_messages params) (p_model params))
                       (p_stream params)]"
      by blast
  qed
qed

theorem create_validation_witness:
  "p_messages sample_no_messages = []
   \<and> validateParams sample_no_messages
       = Inl (BadRequestError (js ''Messages should be a non-empty array''))
   \<and> create sample_uuid sample_no_messages
       = (Inl (BadRequestError (js ''Messages should be a non-empty array'')), [])
   \<and> msg_content (hd (p_messages sample_empty_content)) = []
   \<and> validateParams sample_empty_content
       = Inl (BadRequestError (js ''Each message must have role and content''))
   \<and> create sample_uuid sample_empty_content
       = (Inl (BadRequestError (js ''Each message must have role and content'')), [])
   \<and> validateParams sample_params = Inr ()
   \<and> snd (create sample_uuid sample_params)
       = [Encode sample_messages (js ''gpt-4o''),
          Post (js ''/aiserver.v1.AiService/StreamChat'')
            (createHexMessage sample_uuid sample_messages (js ''gpt-4o'')) True]"
proof -
  note cv = create_validation
  have e1: "p_messages sample_no_messages = []"
    by (simp add: sample_no_messages_def)
  with cv obtain t1 where
    r1: "validateParams sample_no_messages = Inl (BadRequestError t1)"
        "create sample_uuid sample_no_messages = (Inl (BadRequestError t1), [])"
    by blast
  have v1: "validateParams sample_no_messages
       = Inl (BadRequestError (js ''Messages should be a non-empty array''))"
    by code_simp
  with r1 have c1: "create sample_uuid sample_no_messages
       = (Inl (BadRequestError (js ''Messages should be a non-empty array'')), [])"
    by simp
  have e2: "msg_content (hd (p_messages sample_empty_content)) = []"
    by (simp add: sample_empty_content_def)
  have "\<exists>m \<in> set (p_messages sample_empty_content). msg_role m = [] \<or> msg_content m = []"
    by (simp add: sample_empty_content_def)
  with cv obtain t2 where
    r2: "validateParams sample_empty_content = Inl (BadRequestError t2)"
        "create sample_uuid sample_empty_content = (Inl (BadRequestError t2), [])"
    by blast
  have v2: "validateParams sample_empty_content
       = Inl (BadRequestError (js ''Each message must have role and content''))"
    by code_simp
  with r2 have c2: "create sample_uuid sample_empty_content
       = (Inl (BadRequestError (js ''Each message must have role and content'')), [])"
    by simp
  have ok: "p_messages sample_params \<noteq> []
        \<and> (\<forall>m \<in> set (p_messages sample_params). msg_role m \<noteq> [] \<and> msg_content m \<noteq> []
              \<and> msg_role m \<in> {js ''system'', js ''user'', js ''assistant''})
        \<and> p_model sample_params \<noteq> []"
    by (simp add: sample_params_def sample_messages_def js_def)
  with cv have r3: "validateParams sample_params = Inr ()
            \<and> snd (create sample_uuid sample_params)
                = [Encode (p_messages sample_params) (p_model sample_params),
                   Post (js ''/aiserver.v1.AiService/StreamChat'')
                     (createHexMessage sample_uuid (p_messages sample_params) (p_model sample_params))
                     (p_stream sample_params)]"
    by blast
  have f: "p_messages sample_params = sample_messages" "p_model sample_params = js ''gpt-4o''"
    "p_stream sample_params = True"
    by (simp_all add: sample_params_def)
  from e1 v1 c1 e2 v2 c2 r3 show ?thesis unfolding f by blast
qed

end
